theory Spec2Isabelle
  imports Main "HOL-Library.AList"
begin

section \<open>Data model of kitsune/questions/models.py\<close>

text \<open>
  Rows are records, tables are lists in storage order, foreign keys are the primary key
  of the row they point to and a nullable column is an \<open>option\<close>. A \<open>datetime\<close> is the
  number of microseconds since the epoch (datetimes are naive in this code), so a day is
  \<open>86400000000\<close>. The clock \<open>datetime.now()\<close> and the database's \<open>Now()\<close> are one
  parameter \<open>now\<close> of every operation that reads them.
\<close>

datatype error =
    InvalidUserException
  | AlreadyTakenException
  | IntegrityError
  | ZeroDivisionError
  | DatabaseError
  | DoesNotExist
  | KeyError
  | DataError

record question =
  q_id :: nat
  q_creator :: nat
  q_updated :: int
  q_last_answer :: "nat option"
  q_num_answers :: int
  q_solution :: "nat option"
  q_num_votes_past_week :: int
  q_taken_by :: "nat option"
  q_taken_until :: "int option"

record answer =
  a_id :: nat
  a_question :: nat
  a_creator :: nat
  a_created :: int
  a_updated :: int
  a_is_spam :: bool
  a_page :: int

record question_vote =
  qv_question :: nat
  qv_creator :: "nat option"
  qv_anonymous_id :: string
  qv_created :: int

record answer_vote =
  av_answer :: nat
  av_creator :: "nat option"
  av_anonymous_id :: string
  av_helpful :: bool
  av_created :: int

record db =
  questions :: "question list"
  answers :: "answer list"
  question_votes :: "question_vote list"
  answer_votes :: "answer_vote list"
  question_visits :: "(nat \<times> int) list"

text \<open>\<open>Question.objects.get(id=i)\<close>: the row, or \<open>None\<close> for \<open>Question.DoesNotExist\<close>.\<close>

definition get_question :: "nat \<Rightarrow> db \<Rightarrow> question option" where
  "get_question i d = find (\<lambda>q. q_id q = i) (questions d)"

definition question_ids :: "db \<Rightarrow> nat list" where
  "question_ids d = map q_id (questions d)"

text \<open>
  The row write of \<open>Model.save()\<close> for an instance that has a primary key: an UPDATE of
  the row with that key, an INSERT when no row has it.
\<close>

definition put_question :: "question \<Rightarrow> db \<Rightarrow> db" where
  "put_question q d =
     (if q_id q \<in> set (question_ids d)
      then d\<lparr>questions := map (\<lambda>r. if q_id r = q_id q then q else r) (questions d)\<rparr>
      else d\<lparr>questions := questions d @ [q]\<rparr>)"

definition put_answer :: "answer \<Rightarrow> db \<Rightarrow> db" where
  "put_answer a d =
     (if a_id a \<in> set (map a_id (answers d))
      then d\<lparr>answers := map (\<lambda>r. if a_id r = a_id a then a else r) (answers d)\<rparr>
      else d\<lparr>answers := answers d @ [a]\<rparr>)"

text \<open>
  \<open>Question.save(update)\<close> of a stored question (\<open>self.id\<close> is set): \<open>updated\<close> is
  stamped when \<open>update\<close> is true, then the row is written. The cache of rendered HTML
  is not part of the stored state.
\<close>

definition Question_save :: "bool \<Rightarrow> int \<Rightarrow> question \<Rightarrow> db \<Rightarrow> question \<times> db" where
  "Question_save update now q d =
     (let q' = (if update then q\<lparr>q_updated := now\<rparr> else q)
      in (q', put_question q' d))"

section \<open>Voting eligibility: AAQBase.has_voted\<close>

datatype content = QuestionObj question | AnswerObj answer

text \<open>
  The request: \<open>r_user\<close> is the authenticated user (\<open>None\<close> when
  \<open>request.user.is_authenticated\<close> is false), \<open>r_anonymous_id\<close> the anonymous id
  (\<open>None\<close> when \<open>request.anonymous.has_id\<close> is false).
\<close>

record request =
  r_user :: "nat option"
  r_anonymous_id :: "string option"

fun content_creator :: "content \<Rightarrow> nat" where
  "content_creator (QuestionObj q) = q_creator q"
| "content_creator (AnswerObj a) = a_creator a"

fun vote_by_user_exists :: "content \<Rightarrow> nat \<Rightarrow> db \<Rightarrow> bool" where
  "vote_by_user_exists (AnswerObj a) u d =
     list_ex (\<lambda>v. av_answer v = a_id a \<and> av_creator v = Some u) (answer_votes d)"
| "vote_by_user_exists (QuestionObj q) u d =
     list_ex (\<lambda>v. qv_question v = q_id q \<and> qv_creator v = Some u) (question_votes d)"

fun vote_by_anonymous_exists :: "content \<Rightarrow> string \<Rightarrow> db \<Rightarrow> bool" where
  "vote_by_anonymous_exists (AnswerObj a) aid d =
     list_ex (\<lambda>v. av_answer v = a_id a \<and> av_anonymous_id v = aid) (answer_votes d)"
| "vote_by_anonymous_exists (QuestionObj q) aid d =
     list_ex (\<lambda>v. qv_question v = q_id q \<and> qv_anonymous_id v = aid) (question_votes d)"

definition has_voted :: "content \<Rightarrow> request \<Rightarrow> db \<Rightarrow> bool" where
  "has_voted self req d =
     (case r_user req of
        Some u \<Rightarrow>
          if content_creator self = u then True
          else vote_by_user_exists self u d
      | None \<Rightarrow>
          (case r_anonymous_id req of
             Some aid \<Rightarrow> vote_by_anonymous_exists self aid d
           | None \<Rightarrow> False))"

section \<open>Claiming a question: Question.is_taken and Question.take\<close>

text \<open>
  The guard of \<open>is_taken\<close>, with Python's short-circuit \<open>or\<close>: the comparison with the
  clock is reached only when both fields are set.
\<close>

definition not_validly_taken :: "int \<Rightarrow> question \<Rightarrow> bool" where
  "not_validly_taken now q =
     (case q_taken_by q of
        None \<Rightarrow> True
      | Some u \<Rightarrow> (case q_taken_until q of None \<Rightarrow> True | Some t \<Rightarrow> t < now))"

text \<open>The property \<open>is_taken\<close>: its value, the instance and the database afterwards.\<close>

definition is_taken :: "int \<Rightarrow> question \<Rightarrow> db \<Rightarrow> bool \<times> question \<times> db" where
  "is_taken now q d =
     (if not_validly_taken now q then
        (if q_taken_by q \<noteq> None \<or> q_taken_until q \<noteq> None
         then (False, Question_save False now (q\<lparr>q_taken_by := None, q_taken_until := None\<rparr>) d)
         else (False, q, d))
      else (True, q, d))"

text \<open>
  \<open>Question.take(user, force)\<close>, named \<open>take_question\<close> beside the list function
  \<open>take\<close>. \<open>take_timeout\<close> is \<open>config.TAKE_TIMEOUT\<close> in seconds;
  kitsune/questions/config.py is not among the sources, so it is a parameter.
\<close>

definition take_question :: "nat \<Rightarrow> int \<Rightarrow> nat \<Rightarrow> bool \<Rightarrow> question \<Rightarrow> db \<Rightarrow> error + question \<times> db" where
  "take_question take_timeout now user force q d =
     (if user = q_creator q then Inl InvalidUserException
      else if q_taken_by q \<notin> {None, Some user} \<and> \<not> force then Inl AlreadyTakenException
      else Inr (Question_save False now
                  (q\<lparr>q_taken_by := Some user,
                     q_taken_until := Some (now + int take_timeout * 1000000)\<rparr>) d))"

section \<open>Votes in the past week\<close>

definition day :: int where
  "day = 86400000000"

text \<open>
  The start of the calendar day of \<open>t\<close>: what \<open>t.date()\<close> is when it is compared with a
  \<open>DateTimeField\<close>, and what \<open>t.replace(hour=0, minute=0, second=0, microsecond=0)\<close> is.
\<close>

definition midnight :: "int \<Rightarrow> int" where
  "midnight t = t - t mod day"

text \<open>
  The rows of \<open>QuestionVote.objects.filter(question=i, created__range=(lo, hi))\<close>;
  \<open>__range\<close> is SQL's BETWEEN, both ends included.
\<close>

definition votes_in_range :: "nat \<Rightarrow> int \<Rightarrow> int \<Rightarrow> db \<Rightarrow> question_vote list" where
  "votes_in_range i lo hi d =
     filter (\<lambda>v. qv_question v = i \<and> lo \<le> qv_created v \<and> qv_created v \<le> hi) (question_votes d)"

text \<open>\<open>Question.sync_num_votes_past_week\<close>: the count, and the instance with the counter set.\<close>

definition sync_num_votes_past_week :: "int \<Rightarrow> question \<Rightarrow> db \<Rightarrow> int \<times> question" where
  "sync_num_votes_past_week now q d =
     (let last_week = midnight now - 7 * day;
          n = int (length (votes_in_range (q_id q) last_week now d))
      in (n, q\<lparr>q_num_votes_past_week := n\<rparr>))"

text \<open>
  \<open>save(force_update=True)\<close>: an UPDATE that must hit a row, else \<open>DatabaseError\<close>.
\<close>

definition force_update_question :: "question \<Rightarrow> db \<Rightarrow> error + db" where
  "force_update_question q d =
     (if q_id q \<in> set (question_ids d)
      then Inr (d\<lparr>questions := map (\<lambda>r. if q_id r = q_id q then q else r) (questions d)\<rparr>)
      else Inl DatabaseError)"

text \<open>
  The task \<open>update_question_votes\<close> (tasks.py). \<open>Question.DoesNotExist\<close> is caught and
  logged; the log is not stored state.
\<close>

definition update_question_votes :: "int \<Rightarrow> nat \<Rightarrow> db \<Rightarrow> error + db" where
  "update_question_votes now question_id d =
     (case get_question question_id d of
        None \<Rightarrow> Inr d
      | Some q \<Rightarrow> force_update_question (snd (sync_num_votes_past_week now q d)) d)"

text \<open>
  The task \<open>update_question_vote_chunk\<close>: one UPDATE over the questions whose id is in
  the list; \<open>Coalesce(Subquery(count), 0)\<close> is the number of matching votes.
\<close>

definition update_question_vote_chunk :: "int \<Rightarrow> nat list \<Rightarrow> db \<Rightarrow> db" where
  "update_question_vote_chunk now ids d =
     (let past_week = midnight (now - 7 * day)
      in d\<lparr>questions :=
           map (\<lambda>q. if q_id q \<in> set ids
                    then q\<lparr>q_num_votes_past_week :=
                             int (length (votes_in_range (q_id q) past_week now d))\<rparr>
                    else q)
               (questions d)\<rparr>)"

text \<open>
  The window as the specification words it, \<open>[now - 7 days, now]\<close>, for comparison with
  the code's.
\<close>

definition votes_in_trailing_7_days :: "int \<Rightarrow> nat \<Rightarrow> db \<Rightarrow> int" where
  "votes_in_trailing_7_days now i d = int (length (votes_in_range i (now - 7 * day) now d))"

section \<open>Answer pages: Answer.save and the task update_answer_pages\<close>

text \<open>
  \<open>question.answers\<close>, the answers of one question, \<open>order_by("created")\<close> and
  \<open>order_by("-created")\<close>.
\<close>

definition question_answers :: "nat \<Rightarrow> db \<Rightarrow> answer list" where
  "question_answers i d = filter (\<lambda>a. a_question a = i) (answers d)"

definition order_by_created :: "answer list \<Rightarrow> answer list" where
  "order_by_created xs = sort_key a_created xs"

text \<open>
  The order among answers created at the same instant is the database's choice. The
  model keeps such answers in storage order, ascending and descending alike (a stable
  sort). Where the order matters, the creation times are distinct, and then no other
  order is sorted (\<open>order_by_created_unique\<close>, \<open>order_by_created_desc_unique\<close>).
\<close>

definition order_by_created_desc :: "answer list \<Rightarrow> answer list" where
  "order_by_created_desc xs = sort_key (\<lambda>a. - a_created a) xs"

definition not_spam :: "answer list \<Rightarrow> answer list" where
  "not_spam xs = filter (\<lambda>a. \<not> a_is_spam a) xs"

text \<open>
  The queryset the task iterates: \<open>question.answers.order_by("created").filter(is_spam=False)\<close>,
  the answers of the question that are not spam, oldest first.
\<close>

definition visible_answers :: "nat \<Rightarrow> db \<Rightarrow> answer list" where
  "visible_answers i d = not_spam (order_by_created (question_answers i d))"

text \<open>
  \<open>Answer.save()\<close> of a stored answer (\<open>self.id\<close> is set, \<open>update=True\<close>): the answer
  is stamped and written, then the question instance \<open>self.question\<close> gets the count of
  its answers that are not spam and the newest of them as \<open>last_answer\<close>, and is saved
  with \<open>update\<close>. The instance \<open>q\<close> is the one the answers of a queryset share.
  Notifications are sent for a new answer only.
\<close>

definition Answer_save :: "int \<Rightarrow> question \<Rightarrow> answer \<Rightarrow> db \<Rightarrow> question \<times> db" where
  "Answer_save now q a d =
     (let a' = a\<lparr>a_updated := now\<rparr>;
          d1 = put_answer a' d;
          visible = not_spam (question_answers (q_id q) d1);
          latest = take 1 (order_by_created_desc visible);
          q' = q\<lparr>q_num_answers := int (length visible),
                 q_last_answer := (case latest of [] \<Rightarrow> None | l # _ \<Rightarrow> Some (a_id l))\<rparr>
      in Question_save True now q' d1)"

text \<open>
  The loop of \<open>update_answer_pages\<close> over the answers the queryset returned, with the
  counter \<open>i\<close>. \<open>per_page\<close> is \<open>config.ANSWERS_PER_PAGE\<close>; kitsune/questions/config.py
  is not among the sources, so it is a parameter.
\<close>

fun assign_pages :: "nat \<Rightarrow> int \<Rightarrow> nat \<Rightarrow> question \<Rightarrow> answer list \<Rightarrow> db \<Rightarrow> question \<times> db" where
  "assign_pages per_page now i q [] d = (q, d)"
| "assign_pages per_page now i q (a # as) d =
     (case Answer_save now q (a\<lparr>a_page := int (i div per_page) + 1\<rparr>) d of
        (q', d') \<Rightarrow> assign_pages per_page now (i + 1) q' as d')"

text \<open>
  The task. A missing question is reported to the error sink (\<open>capture_exception\<close>, not
  stored state) and the task returns. \<open>i // ANSWERS_PER_PAGE\<close> raises in the first
  iteration, before anything is written, when the divisor is zero.
\<close>

definition update_answer_pages :: "nat \<Rightarrow> int \<Rightarrow> nat \<Rightarrow> db \<Rightarrow> error + db" where
  "update_answer_pages per_page now question_id d =
     (case get_question question_id d of
        None \<Rightarrow> Inr d
      | Some question \<Rightarrow>
          (let todo = visible_answers (q_id question) d
           in if todo \<noteq> [] \<and> per_page = 0 then Inl ZeroDivisionError
              else Inr (snd (assign_pages per_page now 0 question todo d))))"


section \<open>Deleting an answer: Answer.delete\<close>

text \<open>
  \<open>super().delete()\<close> for an answer: the row goes, its votes go with it (CASCADE), and
  every question whose \<open>last_answer\<close> or \<open>solution\<close> is that answer gets the column
  set to NULL (SET_NULL).
\<close>

definition delete_answer_row :: "nat \<Rightarrow> db \<Rightarrow> db" where
  "delete_answer_row aid d =
     d\<lparr>answers := filter (\<lambda>r. a_id r \<noteq> aid) (answers d),
       answer_votes := filter (\<lambda>v. av_answer v \<noteq> aid) (answer_votes d),
       questions :=
         map (\<lambda>q. q\<lparr>q_last_answer := (if q_last_answer q = Some aid then None
                                          else q_last_answer q),
                      q_solution := (if q_solution q = Some aid then None
                                       else q_solution q)\<rparr>)
             (questions d)\<rparr>"

text \<open>
  \<open>answers[1]\<close> on the queryset ordered by \<open>-created\<close>: its second row, \<open>None\<close> for the
  IndexError that the method catches.
\<close>

definition second_newest :: "answer list \<Rightarrow> nat option" where
  "second_newest xs =
     (case drop 1 (order_by_created_desc xs) of [] \<Rightarrow> None | x # _ \<Rightarrow> Some (a_id x))"

text \<open>
  \<open>Answer.delete()\<close>. The result is the database and the question id handed to
  \<open>update_answer_pages.delay\<close>, which runs later; \<open>Question.DoesNotExist\<close> of the first
  line is not caught.
\<close>

definition Answer_delete :: "int \<Rightarrow> answer \<Rightarrow> db \<Rightarrow> error + db \<times> nat" where
  "Answer_delete now self d =
     (case get_question (a_question self) d of
        None \<Rightarrow> Inl DoesNotExist
      | Some question \<Rightarrow>
          (let q1 = (if q_last_answer question = Some (a_id self)
                     then question\<lparr>q_last_answer :=
                                     second_newest (question_answers (q_id question) d)\<rparr>
                     else question);
               q2 = (if q_solution q1 = Some (a_id self) then q1\<lparr>q_solution := None\<rparr> else q1);
               q3 = q2\<lparr>q_num_answers :=
                         int (length (not_spam (question_answers (q_id question) d))) - 1\<rparr>;
               d1 = snd (Question_save False now q3 d)
           in Inr (delete_answer_row (a_id self) d1, q_id question)))"

text \<open>
  \<open>Answer.mark_as_spam\<close>: the flag is set and the answer saved (the time and the user
  of the marking are columns the model does not carry).
\<close>

definition Answer_mark_as_spam :: "int \<Rightarrow> question \<Rightarrow> answer \<Rightarrow> db \<Rightarrow> question \<times> db" where
  "Answer_mark_as_spam now q self d = Answer_save now q (self\<lparr>a_is_spam := True\<rparr>) d"

section \<open>Analytics reconciliation: QuestionVisits.reload_from_analytics\<close>

text \<open>
  Other transactions run beside the reconciliation. The environment \<open>env\<close> lists, for
  each INSERT the reconciliation attempts, the ids of the questions that another
  transaction deletes between the query that filters the existing questions and that
  INSERT; an exhausted list means no interference. Deleting a question removes the rows
  that refer to it (every foreign key to Question is CASCADE).
\<close>

type_synonym env = "nat list list"

definition delete_questions :: "nat list \<Rightarrow> db \<Rightarrow> db" where
  "delete_questions gone d =
     d\<lparr>questions := filter (\<lambda>q. q_id q \<notin> set gone) (questions d),
       answers := filter (\<lambda>a. a_question a \<notin> set gone) (answers d),
       question_votes := filter (\<lambda>v. qv_question v \<notin> set gone) (question_votes d),
       answer_votes :=
         filter (\<lambda>v. av_answer v \<notin> a_id ` set (filter (\<lambda>a. a_question a \<in> set gone) (answers d)))
                (answer_votes d),
       question_visits := filter (\<lambda>(i, v). i \<notin> set gone) (question_visits d)\<rparr>"

text \<open>
  \<open>visits = models.IntegerField(...)\<close>: a signed 32-bit column. \<open>bulk_create\<close> does not
  validate the instances, so a count outside the column's range reaches the database,
  which refuses it (\<open>DataError\<close>, integer out of range).
\<close>

definition int4 :: "int \<Rightarrow> bool" where
  "int4 v \<longleftrightarrow> - 2147483648 \<le> v \<and> v \<le> 2147483647"

text \<open>
  \<open>cls.objects.bulk_create(instances)\<close>, one INSERT. The counts are constants of the
  statement and are converted to the column type before any row is stored: one that does
  not fit is a \<open>DataError\<close>. The \<open>question_id\<close> of an instance is the subquery
  \<open>Question.objects.filter(id=question_id).values("id")\<close>: NULL when the question is
  gone, which the NOT NULL foreign key refuses; the column is also \<open>unique\<close>. Either
  violation is an \<open>IntegrityError\<close>. After an error nothing is inserted.
\<close>

definition bulk_create :: "(nat \<times> int) list \<Rightarrow> db \<Rightarrow> error + db" where
  "bulk_create rows d =
     (if list_ex (\<lambda>(i, v). \<not> int4 v) rows then Inl DataError
      else if list_ex (\<lambda>(i, v). i \<notin> set (question_ids d)) rows
         \<or> \<not> distinct (map fst rows)
         \<or> list_ex (\<lambda>(i, v). i \<in> fst ` set (question_visits d)) rows
      then Inl IntegrityError
      else Inr (d\<lparr>question_visits := question_visits d @ rows\<rparr>))"

text \<open>
  The inner function \<open>create_batch\<close>: the ids of the batch that are questions now (in
  table order; the order only decides the order of the new rows), their instances from
  the dictionary \<open>instance_by_question_id\<close> (an association list in insertion order), and
  the INSERT. The result is the error raised if any, the database, and the rest of the
  environment.
\<close>

definition create_batch :: "(nat \<times> int) list \<Rightarrow> nat list \<Rightarrow> env \<Rightarrow> db \<Rightarrow> error option \<times> db \<times> env" where
  "create_batch instance_by_question_id batch_of_question_ids env d =
     (let ids = filter (\<lambda>i. i \<in> set batch_of_question_ids) (question_ids d);
          d1 = (case env of [] \<Rightarrow> d | gone # _ \<Rightarrow> delete_questions gone d);
          env1 = drop 1 env
      in if \<not> list_all (\<lambda>i. i \<in> fst ` set instance_by_question_id) ids
         then (Some KeyError, d1, env1)
         else (case bulk_create (map (\<lambda>i. (i, the (map_of instance_by_question_id i))) ids) d1 of
                 Inl e \<Rightarrow> (Some e, d1, env1)
               | Inr d2 \<Rightarrow> (None, d2, env1)))"

text \<open>
  The \<open>try\<close> around the first attempt (in a savepoint, which has nothing to undo when the
  INSERT fails) and the second attempt in \<open>except IntegrityError\<close>.
\<close>

definition create_batch_retrying :: "(nat \<times> int) list \<Rightarrow> nat list \<Rightarrow> env \<Rightarrow> db \<Rightarrow> error option \<times> db \<times> env" where
  "create_batch_retrying instance_by_question_id batch env d =
     (case create_batch instance_by_question_id batch env d of
        (Some IntegrityError, d1, env1) \<Rightarrow> create_batch instance_by_question_id batch env1 d1
      | outcome \<Rightarrow> outcome)"

text \<open>
  Modelled from the spec: \<open>chunked\<close> of kitsune/sumo/utils.py is missing from the
  sources; the specification has the insertion happen in sub-batches of 1,000, so
  \<open>chunked xs n\<close> cuts \<open>xs\<close> into consecutive pieces of \<open>n\<close> elements, the last one
  shorter when the length is no multiple of \<open>n\<close>.
\<close>

function chunked :: "'a list \<Rightarrow> nat \<Rightarrow> 'a list list" where
  "chunked xs n = (if n = 0 \<or> xs = [] then [] else take n xs # chunked (drop n xs) n)"
  by pat_completeness auto
termination
  by (relation "measure (\<lambda>(xs, n). length xs)") auto

declare chunked.simps [simp del]

text \<open>The loop over the sub-batches; an error that is not caught ends it.\<close>

fun create_batches :: "(nat \<times> int) list \<Rightarrow> nat list list \<Rightarrow> env \<Rightarrow> db \<Rightarrow> error option \<times> db \<times> env" where
  "create_batches insts [] env d = (None, d, env)"
| "create_batches insts (batch # batches) env d =
     (case create_batch_retrying insts batch env d of
        (None, d', env') \<Rightarrow> create_batches insts batches env' d'
      | failed \<Rightarrow> failed)"

text \<open>
  One batch of up to 30,000 instances: the stale rows of its question ids are deleted,
  then the fresh ones are created in sub-batches of 1,000.
\<close>

definition update_batch :: "(nat \<times> int) list \<Rightarrow> env \<Rightarrow> db \<Rightarrow> error option \<times> db \<times> env" where
  "update_batch instance_by_question_id env d =
     (let question_ids = map fst instance_by_question_id;
          d1 = d\<lparr>question_visits :=
                   filter (\<lambda>(i, v). i \<notin> set question_ids) (question_visits d)\<rparr>
      in create_batches instance_by_question_id (chunked question_ids 1000) env d1)"

text \<open>
  The loop over \<open>enumerate(pageviews_by_question_id.items(), start=1)\<close>, with the counter
  \<open>i\<close> and the dictionary filled so far.
\<close>

fun reload_loop :: "nat \<Rightarrow> nat \<Rightarrow> (nat \<times> int) list \<Rightarrow> (nat \<times> int) list \<Rightarrow> env \<Rightarrow> db \<Rightarrow> error option \<times> db \<times> env" where
  "reload_loop total_count i insts [] env d = (None, d, env)"
| "reload_loop total_count i insts ((question_id, visits) # rest) env d =
     (let insts' = AList.update question_id visits insts
      in if i mod 30000 \<noteq> 0 \<and> i \<noteq> total_count
         then reload_loop total_count (i + 1) insts' rest env d
         else (case update_batch insts' env d of
                 (None, d', env') \<Rightarrow> reload_loop total_count (i + 1) [] rest env' d'
               | failed \<Rightarrow> failed))"

text \<open>
  What is stored when the outer \<open>transaction.atomic()\<close> rolls back: the reconciliation
  writes the table of visits only, so its rows are again those of the start, less the
  rows of questions that other transactions deleted meanwhile.
\<close>

definition rolled_back :: "db \<Rightarrow> db \<Rightarrow> db" where
  "rolled_back d0 d =
     d\<lparr>question_visits := filter (\<lambda>(i, v). i \<in> set (question_ids d)) (question_visits d0)\<rparr>"

text \<open>
  \<open>QuestionVisits.reload_from_analytics\<close>. \<open>pageviews\<close> is the dictionary that
  \<open>googleanalytics.pageviews_by_question\<close> returns, as its items in order.
\<close>

definition reload_from_analytics :: "(nat \<times> int) list \<Rightarrow> env \<Rightarrow> db \<Rightarrow> error option \<times> db" where
  "reload_from_analytics pageviews env d =
     (case reload_loop (length pageviews) 1 [] pageviews env d of
        (None, d', env') \<Rightarrow> (None, d')
      | (Some e, d', env') \<Rightarrow> (Some e, rolled_back d d'))"

text \<open>
  Referential integrity of the table of visits: every row belongs to a stored question.
\<close>

definition visits_refer_to_questions :: "db \<Rightarrow> bool" where
  "visits_refer_to_questions d =
     list_all (\<lambda>(i, v). i \<in> set (question_ids d)) (question_visits d)"

text \<open>
  For the proofs: the rows one sub-batch inserts when nothing interferes, and the rows a
  whole batch inserts.
\<close>

definition fresh_rows :: "(nat \<times> int) list \<Rightarrow> nat list \<Rightarrow> db \<Rightarrow> (nat \<times> int) list" where
  "fresh_rows insts batch d =
     map (\<lambda>i. (i, the (map_of insts i))) (filter (\<lambda>i. i \<in> set batch) (question_ids d))"

definition fresh :: "(nat \<times> int) list \<Rightarrow> db \<Rightarrow> (nat \<times> int) list" where
  "fresh insts d = concat (map (\<lambda>b. fresh_rows insts b d) (chunked (map fst insts) 1000))"

subsection \<open>Example data\<close>

definition ex_question :: question where
  "ex_question = \<lparr>q_id = 1, q_creator = 7, q_updated = 0, q_last_answer = None,
     q_num_answers = 0, q_solution = None, q_num_votes_past_week = 0,
     q_taken_by = None, q_taken_until = None\<rparr>"

definition ex_answer :: answer where
  "ex_answer = \<lparr>a_id = 11, a_question = 1, a_creator = 8, a_created = 100, a_updated = 100,
     a_is_spam = False, a_page = 1\<rparr>"

definition ex_db :: db where
  "ex_db = \<lparr>questions = [ex_question], answers = [ex_answer], question_votes = [],
     answer_votes = [], question_visits = []\<rparr>"

definition ex_db_voted :: db where
  "ex_db_voted = ex_db\<lparr>
     question_votes := [\<lparr>qv_question = 1, qv_creator = None, qv_anonymous_id = ''abc'',
                          qv_created = 50\<rparr>],
     answer_votes := [\<lparr>av_answer = 11, av_creator = Some 9, av_anonymous_id = ''xyz'',
                        av_helpful = True, av_created = 60\<rparr>]\<rparr>"


definition ex_taken_expired :: question where
  "ex_taken_expired = ex_question\<lparr>q_taken_by := Some 9, q_taken_until := Some 5\<rparr>"

definition ex_old_vote_db :: db where
  "ex_old_vote_db = ex_db\<lparr>question_votes :=
     [\<lparr>qv_question = 1, qv_creator = Some 9, qv_anonymous_id = ''v'',
       qv_created = 1 * 86400000000 + 3600000000\<rparr>]\<rparr>"

definition ex_now :: int where
  "ex_now = 8 * 86400000000 + 43200000000"


text \<open>A question with three answers in creation order; the newest is its last answer.\<close>

definition ex_answer_at :: "nat \<Rightarrow> int \<Rightarrow> answer" where
  "ex_answer_at i t = \<lparr>a_id = i, a_question = 1, a_creator = 8, a_created = t, a_updated = t,
     a_is_spam = False, a_page = 1\<rparr>"

definition ex_thread_question :: question where
  "ex_thread_question = ex_question\<lparr>q_num_answers := 3, q_last_answer := Some 13,
     q_solution := Some 12\<rparr>"

definition ex_thread_db :: db where
  "ex_thread_db = \<lparr>questions = [ex_thread_question],
     answers = [ex_answer_at 11 100, ex_answer_at 12 200, ex_answer_at 13 300],
     question_votes = [], answer_votes = [], question_visits = []\<rparr>"

text \<open>
  A question with three answers in creation order, none of them spam; the newest is its
  last answer.
\<close>

definition ex_late_question :: question where
  "ex_late_question = ex_question\<lparr>q_num_answers := 3, q_last_answer := Some 14\<rparr>"

definition ex_late_thread_db :: db where
  "ex_late_thread_db =
     \<lparr>questions = [ex_late_question],
      answers = [ex_answer_at 12 200, ex_answer_at 13 300, ex_answer_at 14 400],
      question_votes = [], answer_votes = [], question_visits = []\<rparr>"

text \<open>Three questions, two of them with a stored count of visits.\<close>

definition ex_question_at :: "nat \<Rightarrow> question" where
  "ex_question_at i = ex_question\<lparr>q_id := i\<rparr>"

definition ex_visits_db :: db where
  "ex_visits_db = \<lparr>questions = [ex_question_at 1, ex_question_at 2, ex_question_at 3],
     answers = [], question_votes = [], answer_votes = [],
     question_visits = [(1, 5), (3, 6)]\<rparr>"

text \<open>The same questions when only question 1 has a stored count.\<close>

definition ex_race_db :: db where
  "ex_race_db = ex_visits_db\<lparr>question_visits := [(1, 5)]\<rparr>"

definition ex_pageviews :: "(nat \<times> int) list" where
  "ex_pageviews = [(1, 42), (2, 27), (123459, 3)]"

text \<open>Counts for the three questions, and the database once their stale rows are deleted.\<close>

definition ex_counts :: "(nat \<times> int) list" where
  "ex_counts = [(1, 42), (2, 27), (3, 9)]"

definition ex_cleared_db :: db where
  "ex_cleared_db = ex_visits_db\<lparr>question_visits := []\<rparr>"

section \<open>Theorems\<close>

lemma find_replace_by_id:
  "find (\<lambda>r. q_id r = q_id q) (map (\<lambda>r. if q_id r = q_id q then q else r) qs) =
     (if q_id q \<in> q_id ` set qs then Some q else None)"
  by (induction qs) auto

lemma find_append_new:
  "q_id q \<notin> q_id ` set qs \<Longrightarrow> find (\<lambda>r. q_id r = q_id q) (qs @ [q]) = Some q"
  by (induction qs) auto

lemma get_question_put_question:
  "get_question (q_id q) (put_question q d) = Some q"
  by (simp add: get_question_def put_question_def question_ids_def
                find_replace_by_id find_append_new)

subsection \<open>has_voted\<close>

text \<open>
  C10. For an authenticated request whose user is the creator of the question or answer,
  \<open>has_voted\<close> is true whatever vote rows are stored; for a request that is not
  authenticated and carries no anonymous id it is false.
\<close>

theorem has_voted_creator_or_unidentified:
  "(r_user req = Some (content_creator self) \<longrightarrow> has_voted self req d) \<and>
   (r_user req = None \<and> r_anonymous_id req = None \<longrightarrow> \<not> has_voted self req d)"
  by (simp add: has_voted_def)

theorem has_voted_creator_or_unidentified_witness:
  "has_voted (QuestionObj ex_question) \<lparr>r_user = Some 7, r_anonymous_id = None\<rparr> ex_db \<and>
   has_voted (AnswerObj ex_answer) \<lparr>r_user = Some 8, r_anonymous_id = Some ''abc''\<rparr> ex_db \<and>
   \<not> has_voted (QuestionObj ex_question) \<lparr>r_user = None, r_anonymous_id = None\<rparr> ex_db_voted \<and>
   \<not> has_voted (AnswerObj ex_answer) \<lparr>r_user = None, r_anonymous_id = None\<rparr> ex_db_voted"
  using has_voted_creator_or_unidentified
          [of "\<lparr>r_user = Some 7, r_anonymous_id = None\<rparr>" "QuestionObj ex_question" ex_db]
        has_voted_creator_or_unidentified
          [of "\<lparr>r_user = Some 8, r_anonymous_id = Some ''abc''\<rparr>" "AnswerObj ex_answer" ex_db]
        has_voted_creator_or_unidentified
          [of "\<lparr>r_user = None, r_anonymous_id = None\<rparr>" "QuestionObj ex_question" ex_db_voted]
        has_voted_creator_or_unidentified
          [of "\<lparr>r_user = None, r_anonymous_id = None\<rparr>" "AnswerObj ex_answer" ex_db_voted]
  by (simp add: ex_question_def ex_answer_def)

subsection \<open>is_taken\<close>

lemma is_taken_True_iff:
  "fst (is_taken now q d) \<longleftrightarrow>
     (\<exists>u t. q_taken_by q = Some u \<and> q_taken_until q = Some t \<and> now \<le> t)"
  by (auto simp: is_taken_def not_validly_taken_def Question_save_def Let_def
           split: option.splits)

text \<open>
  C6. A question whose \<open>taken_until\<close> is earlier than now, or that has one of
  \<open>taken_by\<close> and \<open>taken_until\<close> set and the other missing, is not taken:
  \<open>is_taken\<close> returns False, both fields of the instance are reset to none, and the
  reset instance is the stored row.
\<close>

theorem is_taken_expired_or_partial_resets:
  assumes "(\<exists>t. q_taken_until q = Some t \<and> t < now) \<or>
           (q_taken_by q = None \<and> q_taken_until q \<noteq> None) \<or>
           (q_taken_by q \<noteq> None \<and> q_taken_until q = None)"
  shows "\<exists>q' d'. is_taken now q d = (False, q', d') \<and>
           q_taken_by q' = None \<and> q_taken_until q' = None \<and>
           q' = q\<lparr>q_taken_by := None, q_taken_until := None\<rparr> \<and>
           get_question (q_id q) d' = Some q'"
proof -
  let ?q' = "q\<lparr>q_taken_by := None, q_taken_until := None\<rparr>"
  from assms have guard: "not_validly_taken now q"
    by (auto simp: not_validly_taken_def split: option.splits)
  from assms have some: "q_taken_by q \<noteq> None \<or> q_taken_until q \<noteq> None"
    by auto
  have stored: "get_question (q_id q) (put_question ?q' d) = Some ?q'"
    using get_question_put_question [of ?q' d] by simp
  from guard some have "is_taken now q d = (False, ?q', put_question ?q' d)"
    by (simp add: is_taken_def Question_save_def Let_def)
  with stored show ?thesis by simp
qed

theorem is_taken_expired_or_partial_resets_witness:
  "\<exists>q' d'. is_taken 10 ex_taken_expired ex_db = (False, q', d') \<and>
           q_taken_by q' = None \<and> q_taken_until q' = None \<and>
           q' = ex_taken_expired\<lparr>q_taken_by := None, q_taken_until := None\<rparr> \<and>
           get_question (q_id ex_taken_expired) d' = Some q'"
proof -
  have "\<exists>t. q_taken_until ex_taken_expired = Some t \<and> t < 10"
    by (simp add: ex_taken_expired_def)
  then show ?thesis
    using is_taken_expired_or_partial_resets [of ex_taken_expired 10 ex_db] by blast
qed

subsection \<open>take\<close>



text \<open>
  \<open>take\<close> does not read the clock: a claim that has expired is reset when the property
  \<open>is_taken\<close> is read (C6). Once the property has said that the question is not taken,
  any user but the creator can take it without \<open>force\<close>.
\<close>

lemma take_after_is_taken_reset:
  assumes "\<not> fst (is_taken now q d)" and "user \<noteq> q_creator q"
  shows "\<exists>q1 d1 q2 d2. is_taken now q d = (False, q1, d1) \<and>
           take_question tt now user False q1 d1 = Inr (q2, d2) \<and>
           q_taken_by q2 = Some user \<and>
           q_taken_until q2 = Some (now + int tt * 1000000)"
  using assms
  by (auto simp: is_taken_def take_question_def Question_save_def Let_def split: if_splits)

subsection \<open>Votes in the past week\<close>

lemma find_map_same_id:
  "(\<And>q. q_id (f q) = q_id q) \<Longrightarrow>
     find (\<lambda>q. q_id q = i) (map f qs) = map_option f (find (\<lambda>q. q_id q = i) qs)"
  by (induction qs) auto

lemma get_question_id: "get_question i d = Some q \<Longrightarrow> q_id q = i"
  by (auto simp: get_question_def find_Some_iff)

lemma get_question_in_ids: "get_question i d = Some q \<Longrightarrow> i \<in> set (question_ids d)"
  by (auto simp: get_question_def question_ids_def find_Some_iff)

lemma midnight_shift: "midnight (t - 7 * day) = midnight t - 7 * day"
  using mod_mult_self1 [of t "- 7" day] by (simp add: midnight_def)

text \<open>
  C4, as stated, fails. At noon of day 8 a vote cast at one o'clock in the night of day 1
  is more than seven days old, yet both the task \<open>update_question_votes\<close> and the bulk
  \<open>update_question_vote_chunk\<close> count it: the counter is 1 where the interval
  \<open>[now - 7 days, now]\<close> holds no vote.
\<close>

theorem votes_past_week_window_counterexample:
  "map q_num_votes_past_week
     (questions (update_question_vote_chunk ex_now [1] ex_old_vote_db)) = [1] \<and>
   (\<exists>d'. update_question_votes ex_now 1 ex_old_vote_db = Inr d' \<and>
      map q_num_votes_past_week (questions d') = [1]) \<and>
   votes_in_trailing_7_days ex_now 1 ex_old_vote_db = 0"
  by (simp add: update_question_vote_chunk_def update_question_votes_def ex_old_vote_db_def
        ex_now_def ex_db_def ex_question_def votes_in_trailing_7_days_def votes_in_range_def
        midnight_def day_def get_question_def sync_num_votes_past_week_def
        force_update_question_def question_ids_def Let_def)

text \<open>
  C4, amended. For a stored question, \<open>update_question_votes\<close> (which runs
  \<open>sync_num_votes_past_week\<close> and saves) and \<open>update_question_vote_chunk\<close> (for an id of
  its list) set \<open>num_votes_past_week\<close> to the number of the question's votes created
  between the midnight that starts the day seven days before now, and now, both ends
  included; no other field of the question changes.
\<close>

theorem votes_past_week_counts_since_midnight:
  assumes "get_question i d = Some q"
  shows "(\<exists>d'. update_question_votes now i d = Inr d' \<and>
            get_question i d' =
              Some (q\<lparr>q_num_votes_past_week :=
                        int (length (votes_in_range i (midnight now - 7 * day) now d))\<rparr>)) \<and>
         (i \<in> set ids \<longrightarrow>
            get_question i (update_question_vote_chunk now ids d) =
              Some (q\<lparr>q_num_votes_past_week :=
                        int (length (votes_in_range i (midnight now - 7 * day) now d))\<rparr>))"
proof -
  let ?n = "int (length (votes_in_range i (midnight now - 7 * day) now d))"
  let ?q' = "q\<lparr>q_num_votes_past_week := ?n\<rparr>"
  have qid: "q_id q = i" using assms by (rule get_question_id)
  have mem: "q_id ?q' \<in> set (question_ids d)"
    using get_question_in_ids [OF assms] qid by simp
  have "force_update_question ?q' d = Inr (put_question ?q' d)"
    using mem by (simp add: force_update_question_def put_question_def)
  moreover have "get_question i (put_question ?q' d) = Some ?q'"
    using get_question_put_question [of ?q' d] qid by simp
  ultimately have single:
    "\<exists>d'. update_question_votes now i d = Inr d' \<and> get_question i d' = Some ?q'"
    using assms qid
    by (simp add: update_question_votes_def sync_num_votes_past_week_def Let_def)
  have bulk: "get_question i (update_question_vote_chunk now ids d) = Some ?q'"
    if "i \<in> set ids"
  proof -
    let ?f = "\<lambda>q. if q_id q \<in> set ids
                    then q\<lparr>q_num_votes_past_week :=
                             int (length (votes_in_range (q_id q)
                                            (midnight now - 7 * day) now d))\<rparr>
                    else q"
    have "find (\<lambda>q. q_id q = i) (map ?f (questions d)) =
            map_option ?f (find (\<lambda>q. q_id q = i) (questions d))"
      by (rule find_map_same_id) simp
    then show ?thesis
      using assms that qid
      by (simp add: update_question_vote_chunk_def get_question_def midnight_shift Let_def)
  qed
  from single bulk show ?thesis by blast
qed

theorem votes_past_week_counts_since_midnight_witness:
  "get_question 1 ex_old_vote_db = Some ex_question \<and>
   length (votes_in_range 1 (midnight ex_now - 7 * day) ex_now ex_old_vote_db) = 1 \<and>
   (\<exists>d'. update_question_votes ex_now 1 ex_old_vote_db = Inr d' \<and>
      get_question 1 d' = Some (ex_question\<lparr>q_num_votes_past_week := 1\<rparr>)) \<and>
   get_question 1 (update_question_vote_chunk ex_now [1, 2] ex_old_vote_db) =
     Some (ex_question\<lparr>q_num_votes_past_week := 1\<rparr>)"
proof -
  have stored: "get_question 1 ex_old_vote_db = Some ex_question"
    by (simp add: get_question_def ex_old_vote_db_def ex_db_def ex_question_def)
  have count: "length (votes_in_range 1 (midnight ex_now - 7 * day) ex_now ex_old_vote_db) = 1"
    by (simp add: votes_in_range_def midnight_def day_def ex_now_def ex_old_vote_db_def)
  show ?thesis
    using votes_past_week_counts_since_midnight [OF stored, of ex_now "[1, 2]"] stored count
    by simp
qed

subsection \<open>Tasks on a deleted question\<close>

text \<open>
  C8. When no Question row has the given id, the tasks \<open>update_question_votes\<close> and
  \<open>update_answer_pages\<close> return normally and leave the stored state as it was.
\<close>

theorem tasks_on_missing_question_are_noops:
  assumes "get_question i d = None"
  shows "update_question_votes now i d = Inr d \<and>
         update_answer_pages per_page now i d = Inr d"
  using assms by (simp add: update_question_votes_def update_answer_pages_def)

theorem tasks_on_missing_question_are_noops_witness:
  "get_question 99 ex_db_voted = None \<and>
   update_question_votes ex_now 99 ex_db_voted = Inr ex_db_voted \<and>
   update_answer_pages 20 ex_now 99 ex_db_voted = Inr ex_db_voted"
proof -
  have missing: "get_question 99 ex_db_voted = None"
    by (simp add: get_question_def ex_db_voted_def ex_db_def ex_question_def)
  show ?thesis
    using tasks_on_missing_question_are_noops [OF missing, of ex_now 20] missing by simp
qed

subsection \<open>Answer pages\<close>

lemma answers_put_question [simp]: "answers (put_question q d) = answers d"
  by (simp add: put_question_def)

lemma answers_Question_save [simp]: "answers (snd (Question_save u now q d)) = answers d"
  by (simp add: Question_save_def Let_def)













lemma sort_key_unique:
  assumes "distinct (map f xs)" and "set ys = set xs" and "distinct ys"
    and "sorted (map f ys)"
  shows "ys = sort_key f xs"
proof -
  have inj: "inj_on f (set xs)" and dx: "distinct xs"
    using assms(1) by (simp_all add: distinct_map)
  have "map f ys = map f (sort_key f xs)"
  proof (rule sorted_distinct_set_unique)
    show "sorted (map f ys)" by (rule assms(4))
    show "distinct (map f ys)" using assms(2,3) inj by (simp add: distinct_map)
    show "sorted (map f (sort_key f xs))" by (rule sorted_sort_key)
    show "distinct (map f (sort_key f xs))" using dx inj by (simp add: distinct_map)
    show "set (map f ys) = set (map f (sort_key f xs))" using assms(2) by simp
  qed
  moreover have "inj_on f (set ys \<union> set (sort_key f xs))"
    using inj assms(2) by simp
  ultimately show ?thesis by (simp add: inj_on_map_eq_map)
qed

lemma order_by_created_unique:
  "distinct (map a_created xs) \<Longrightarrow> set ys = set xs \<Longrightarrow> distinct ys \<Longrightarrow>
     sorted (map a_created ys) \<Longrightarrow> ys = order_by_created xs"
  unfolding order_by_created_def by (rule sort_key_unique)

lemma order_by_created_desc_unique:
  assumes "distinct (map a_created xs)" and "set ys = set xs" and "distinct ys"
    and "sorted (map (\<lambda>a. - a_created a) ys)"
  shows "ys = order_by_created_desc xs"
proof -
  have "inj_on a_created (set xs)" and "distinct xs"
    using assms(1) by (simp_all add: distinct_map)
  then have "distinct (map (\<lambda>a. - a_created a) xs)"
    by (auto simp: distinct_map inj_on_def)
  then show ?thesis
    unfolding order_by_created_desc_def using assms(2-4) by (rule sort_key_unique)
qed











subsection \<open>Answer.delete\<close>

lemma get_question_delete_answer_row:
  "get_question i (delete_answer_row aid d) =
     map_option
       (\<lambda>q. q\<lparr>q_last_answer := (if q_last_answer q = Some aid then None else q_last_answer q),
                q_solution := (if q_solution q = Some aid then None else q_solution q)\<rparr>)
       (get_question i d)"
  unfolding get_question_def delete_answer_row_def
  by (simp add: find_map_same_id)

text \<open>
  The second half of C7 holds: after \<open>Answer.delete\<close> of the answer that is the
  question's solution, the stored question has no solution.
\<close>

lemma Answer_delete_clears_solution:
  assumes "get_question (a_question self) d = Some q"
    and "q_solution q = Some (a_id self)"
  shows "\<exists>d'. Answer_delete now self d = Inr (d', a_question self) \<and>
           map_option q_solution (get_question (a_question self) d') = Some None"
proof -
  define q1 where "q1 = (if q_last_answer q = Some (a_id self)
                     then q\<lparr>q_last_answer := second_newest (question_answers (q_id q) d)\<rparr>
                     else q)"
  define q3 where "q3 = q1\<lparr>q_solution := None,
                     q_num_answers := int (length (not_spam (question_answers (q_id q) d))) - 1\<rparr>"
  have qid: "q_id q = a_question self" using assms(1) by (rule get_question_id)
  have sol1: "q_solution q1 = Some (a_id self)" using assms(2) by (simp add: q1_def)
  have id3: "q_id q3 = a_question self" using qid by (simp add: q3_def q1_def)
  have stored: "get_question (a_question self) (put_question q3 d) = Some q3"
    using get_question_put_question [of q3 d] id3 by simp
  have run: "Answer_delete now self d =
               Inr (delete_answer_row (a_id self) (put_question q3 d), a_question self)"
    using assms(1) sol1 qid
    by (simp add: Answer_delete_def Question_save_def Let_def q3_def q1_def)
  have "map_option q_solution
          (get_question (a_question self) (delete_answer_row (a_id self) (put_question q3 d))) =
        Some None"
    using stored by (simp add: get_question_delete_answer_row q3_def)
  with run show ?thesis by blast
qed

text \<open>
  The case of \<open>test_delete_last_answer_of_question\<close>: the newest answer is the last
  answer and is deleted; the pointer goes back to the answer before it, and the task
  \<open>update_answer_pages\<close> that \<open>Answer.delete\<close> queues leaves it there.
\<close>

lemma Answer_delete_newest_example:
  "\<exists>d' d''. Answer_delete 2000 (ex_answer_at 13 300) ex_thread_db = Inr (d', 1) \<and>
     map_option q_last_answer (get_question 1 d') = Some (Some 12) \<and>
     map a_id (answers d') = [11, 12] \<and>
     update_answer_pages 20 2100 1 d' = Inr d'' \<and>
     map_option q_last_answer (get_question 1 d'') = Some (Some 12)"
proof -
  let ?r = "Answer_delete 2000 (ex_answer_at 13 300) ex_thread_db"
  have deleted: "map_sum id
                   (\<lambda>(d, i). (map_option q_last_answer (get_question 1 d), map a_id (answers d), i))
                   ?r = Inr (Some (Some 12), [11, 12], 1)"
    by code_simp
  have task: "map_sum id
                (\<lambda>(d, i). map_sum id (\<lambda>d'. map_option q_last_answer (get_question 1 d'))
                             (update_answer_pages 20 2100 i d)) ?r =
              Inr (Inr (Some (Some 12)))"
    by code_simp
  obtain d' where d': "?r = Inr (d', 1)"
    and p': "map_option q_last_answer (get_question 1 d') = Some (Some 12)"
    and a': "map a_id (answers d') = [11, 12]"
    using deleted by (cases ?r) auto
  obtain d'' where d'': "update_answer_pages 20 2100 1 d' = Inr d''"
    and p'': "map_option q_last_answer (get_question 1 d'') = Some (Some 12)"
    using task unfolding d' by (cases "update_answer_pages 20 2100 1 d'") auto
  show ?thesis
    by (rule exI [of _ d'], rule exI [of _ d'']) (use d' p' a' d'' p'' in simp)
qed

text \<open>
  When the newest answer 13 is spam and the last answer 12 is deleted, \<open>answers[1]\<close> of
  the answers ordered by \<open>-created\<close> (13, 12, 11) is answer 12 itself, and the pointer
  is NULL once the row is gone. The queued task then saves answer 11, and \<open>Answer.save\<close>
  makes it the last answer: here the pointer is wrong only until the task has run.
\<close>

lemma Answer_delete_transient_example:
  "\<exists>q1 d1 d2 d3.
     Answer_mark_as_spam 1000 ex_thread_question (ex_answer_at 13 300) ex_thread_db = (q1, d1) \<and>
     get_question 1 d1 = Some q1 \<and> q_last_answer q1 = Some 12 \<and>
     Answer_delete 2000 (ex_answer_at 12 200) d1 = Inr (d2, 1) \<and>
     map_option q_last_answer (get_question 1 d2) = Some None \<and>
     update_answer_pages 20 2100 1 d2 = Inr d3 \<and>
     map_option q_last_answer (get_question 1 d3) = Some (Some 11)"
proof -
  let ?s = "Answer_mark_as_spam 1000 ex_thread_question (ex_answer_at 13 300) ex_thread_db"
  let ?r = "Answer_delete 2000 (ex_answer_at 12 200) (snd ?s)"
  have spam: "get_question 1 (snd ?s) = Some (fst ?s) \<and> q_last_answer (fst ?s) = Some 12"
    by code_simp
  have deleted: "map_sum id (\<lambda>(d, i). (map_option q_last_answer (get_question 1 d), i)) ?r =
                   Inr (Some None, 1)"
    by code_simp
  have task: "map_sum id
                (\<lambda>(d, i). map_sum id (\<lambda>d'. map_option q_last_answer (get_question 1 d'))
                             (update_answer_pages 20 2100 i d)) ?r =
              Inr (Inr (Some (Some 11)))"
    by code_simp
  obtain q1 d1 where s: "?s = (q1, d1)"
    by (cases ?s)
  have f1: "get_question 1 d1 = Some q1 \<and> q_last_answer q1 = Some 12"
    using spam unfolding s by simp
  obtain d2 where d2: "Answer_delete 2000 (ex_answer_at 12 200) d1 = Inr (d2, 1)"
    and p2: "map_option q_last_answer (get_question 1 d2) = Some None"
    using deleted unfolding s snd_conv
    by (cases "Answer_delete 2000 (ex_answer_at 12 200) d1") auto
  obtain d3 where d3: "update_answer_pages 20 2100 1 d2 = Inr d3"
    and p3: "map_option q_last_answer (get_question 1 d3) = Some (Some 11)"
    using task unfolding s snd_conv d2
    by (cases "update_answer_pages 20 2100 1 d2") auto
  show ?thesis
    by (rule exI [of _ q1], rule exI [of _ d1], rule exI [of _ d2], rule exI [of _ d3])
       (use s f1 d2 p2 d3 p3 in simp)
qed

text \<open>
  C7, first half, on the code. The question has the answers 12, 13 and 14, created in this
  order, and 14 is its last answer. Answer 14 is marked as spam, then answer 13:
  \<open>Answer.save\<close> makes the newest answer that is not spam the last answer, first 13 and
  then 12. Answer 12, the current last answer, is then deleted. \<open>answers[1]\<close> of all the
  answers ordered by \<open>-created\<close> (14, 13, 12) is answer 13, which becomes the last
  answer. The queued task \<open>update_answer_pages\<close> finds no answer that is not spam, saves
  nothing and leaves the pointer as it is. The stored question ends with the spam answer
  13 as its last answer: this is not the most recent remaining answer (14), and it is not
  none, though no answer that is not spam remains.
\<close>

theorem Answer_delete_last_answer_behind_spam:
  "\<exists>q1 d1 q2 d2 d3 d4.
     get_question 1 ex_late_thread_db = Some ex_late_question \<and>
     q_last_answer ex_late_question = Some 14 \<and>
     Answer_mark_as_spam 1000 ex_late_question (ex_answer_at 14 400) ex_late_thread_db = (q1, d1) \<and>
     get_question 1 d1 = Some q1 \<and> q_last_answer q1 = Some 13 \<and>
     Answer_mark_as_spam 1100 q1 (ex_answer_at 13 300) d1 = (q2, d2) \<and>
     get_question 1 d2 = Some q2 \<and> q_last_answer q2 = Some 12 \<and>
     Answer_delete 2000 (ex_answer_at 12 200) d2 = Inr (d3, 1) \<and>
     map_option q_last_answer (get_question 1 d3) = Some (Some 13) \<and>
     update_answer_pages 20 2100 1 d3 = Inr d4 \<and>
     map_option q_last_answer (get_question 1 d4) = Some (Some 13) \<and>
     map (\<lambda>a. (a_id a, a_created a, a_is_spam a)) (answers d4) =
       [(13, 300, True), (14, 400, True)]"
proof -
  let ?s1 = "Answer_mark_as_spam 1000 ex_late_question (ex_answer_at 14 400) ex_late_thread_db"
  let ?s2 = "Answer_mark_as_spam 1100 (fst ?s1) (ex_answer_at 13 300) (snd ?s1)"
  let ?r3 = "Answer_delete 2000 (ex_answer_at 12 200) (snd ?s2)"
  have start: "get_question 1 ex_late_thread_db = Some ex_late_question \<and>
               q_last_answer ex_late_question = Some 14"
    by code_simp
  have spam14: "get_question 1 (snd ?s1) = Some (fst ?s1) \<and> q_last_answer (fst ?s1) = Some 13"
    by code_simp
  have spam13: "get_question 1 (snd ?s2) = Some (fst ?s2) \<and> q_last_answer (fst ?s2) = Some 12"
    by code_simp
  have deleted: "map_sum id (\<lambda>(d, i). (map_option q_last_answer (get_question 1 d), i)) ?r3 =
                   Inr (Some (Some 13), 1)"
    by code_simp
  have task: "map_sum id
                (\<lambda>(d, i). map_sum id
                   (\<lambda>d'. (map_option q_last_answer (get_question 1 d'),
                          map (\<lambda>a. (a_id a, a_created a, a_is_spam a)) (answers d')))
                   (update_answer_pages 20 2100 i d)) ?r3 =
              Inr (Inr (Some (Some 13), [(13, 300, True), (14, 400, True)]))"
    by code_simp
  obtain q1 d1 where s1: "?s1 = (q1, d1)"
    by (cases ?s1)
  obtain q2 d2 where s2: "Answer_mark_as_spam 1100 q1 (ex_answer_at 13 300) d1 = (q2, d2)"
    by (cases "Answer_mark_as_spam 1100 q1 (ex_answer_at 13 300) d1")
  have f14: "get_question 1 d1 = Some q1 \<and> q_last_answer q1 = Some 13"
    using spam14 unfolding s1 by simp
  have f13: "get_question 1 d2 = Some q2 \<and> q_last_answer q2 = Some 12"
    using spam13 unfolding s1 fst_conv snd_conv s2 .
  obtain d3 where d3: "Answer_delete 2000 (ex_answer_at 12 200) d2 = Inr (d3, 1)"
    and p3: "map_option q_last_answer (get_question 1 d3) = Some (Some 13)"
    using deleted unfolding s1 fst_conv snd_conv s2
    by (cases "Answer_delete 2000 (ex_answer_at 12 200) d2") auto
  obtain d4 where d4: "update_answer_pages 20 2100 1 d3 = Inr d4"
    and p4: "map_option q_last_answer (get_question 1 d4) = Some (Some 13)"
    and a4: "map (\<lambda>a. (a_id a, a_created a, a_is_spam a)) (answers d4) =
               [(13, 300, True), (14, 400, True)]"
    using task unfolding s1 fst_conv snd_conv s2 d3
    by (cases "update_answer_pages 20 2100 1 d3") auto
  show ?thesis
    by (rule exI [of _ q1], rule exI [of _ d1], rule exI [of _ q2], rule exI [of _ d2],
        rule exI [of _ d3], rule exI [of _ d4])
       (use start s1 f14 s2 f13 d3 p3 d4 p4 a4 in simp)
qed

subsection \<open>Analytics reconciliation\<close>

lemma question_ids_visits [simp]: "question_ids (d\<lparr>question_visits := vs\<rparr>) = question_ids d"
  by (simp add: question_ids_def)

lemma fresh_rows_visits [simp]: "fresh_rows insts b (d\<lparr>question_visits := vs\<rparr>) = fresh_rows insts b d"
  by (simp add: fresh_rows_def)

lemma keys_fresh_rows: "fst ` set (fresh_rows insts b d) = set b \<inter> set (question_ids d)"
  by (auto simp: fresh_rows_def image_iff)

lemma distinct_fresh_rows: "distinct (question_ids d) \<Longrightarrow> distinct (map fst (fresh_rows insts b d))"
  by (simp add: fresh_rows_def comp_def distinct_map_filter)

lemma set_fresh_rows:
  assumes "distinct (map fst insts)" and "set b \<subseteq> fst ` set insts"
  shows "set (fresh_rows insts b d) =
           {(i, v). (i, v) \<in> set insts \<and> i \<in> set b \<and> i \<in> set (question_ids d)}"
proof (intro set_eqI iffI)
  fix x assume "x \<in> set (fresh_rows insts b d)"
  then obtain i where i: "x = (i, the (map_of insts i))" "i \<in> set b" "i \<in> set (question_ids d)"
    by (auto simp: fresh_rows_def)
  then obtain v where "(i, v) \<in> set insts" using assms(2) by auto
  then have "map_of insts i = Some v" using assms(1) by (rule map_of_is_SomeI [rotated])
  then show "x \<in> {(i, v). (i, v) \<in> set insts \<and> i \<in> set b \<and> i \<in> set (question_ids d)}"
    using i \<open>(i, v) \<in> set insts\<close> by simp
next
  fix x assume "x \<in> {(i, v). (i, v) \<in> set insts \<and> i \<in> set b \<and> i \<in> set (question_ids d)}"
  then obtain i v where x: "x = (i, v)" "(i, v) \<in> set insts" "i \<in> set b" "i \<in> set (question_ids d)"
    by auto
  have "map_of insts i = Some v" using assms(1) x(2) by (rule map_of_is_SomeI)
  then have "x = (i, the (map_of insts i))" using x(1) by simp
  then show "x \<in> set (fresh_rows insts b d)" using x(3,4) by (simp add: fresh_rows_def)
qed

lemma fresh_rows_int4:
  assumes "\<forall>x \<in> set insts. int4 (snd x)" and "set b \<subseteq> fst ` set insts"
  shows "\<forall>x \<in> set (fresh_rows insts b d). int4 (snd x)"
proof
  fix x assume "x \<in> set (fresh_rows insts b d)"
  then obtain i where x: "x = (i, the (map_of insts i))" and i: "i \<in> set b"
    by (auto simp: fresh_rows_def)
  have "i \<in> fst ` set insts" using i assms(2) by blast
  then obtain v where v: "map_of insts i = Some v"
    by (cases "map_of insts i") (simp_all add: map_of_eq_None_iff)
  then have "(i, v) \<in> set insts" by (rule map_of_SomeD)
  then have "int4 v" using assms(1) by force
  then show "int4 (snd x)" using x v by simp
qed

lemma bulk_create_ok:
  assumes "distinct (map fst rows)" and "fst ` set rows \<subseteq> set (question_ids d)"
    and "fst ` set rows \<inter> fst ` set (question_visits d) = {}"
    and "\<forall>x \<in> set rows. int4 (snd x)"
  shows "bulk_create rows d = Inr (d\<lparr>question_visits := question_visits d @ rows\<rparr>)"
proof -
  have 0: "\<not> list_ex (\<lambda>(i, v). \<not> int4 v) rows"
    using assms(4) by (auto simp: list_ex_iff)
  have 1: "\<not> list_ex (\<lambda>(i, v). i \<notin> set (question_ids d)) rows"
    using assms(2) by (auto simp: list_ex_iff)
  have 2: "\<not> list_ex (\<lambda>(i, v). i \<in> fst ` set (question_visits d)) rows"
  proof
    assume "list_ex (\<lambda>(i, v). i \<in> fst ` set (question_visits d)) rows"
    then obtain i v where "(i, v) \<in> set rows" "i \<in> fst ` set (question_visits d)"
      by (auto simp: list_ex_iff)
    moreover from this have "i \<in> fst ` set rows" by force
    ultimately show False using assms(3) by blast
  qed
  show ?thesis using 0 1 2 assms(1) by (simp add: bulk_create_def)
qed

lemma create_batch_quiet:
  assumes "distinct (question_ids d)" and "set b \<subseteq> fst ` set insts"
    and "set b \<inter> fst ` set (question_visits d) = {}"
    and "\<forall>x \<in> set insts. int4 (snd x)"
  shows "create_batch insts b [] d =
           (None, d\<lparr>question_visits := question_visits d @ fresh_rows insts b d\<rparr>, [])"
proof -
  have "bulk_create (fresh_rows insts b d) d =
          Inr (d\<lparr>question_visits := question_visits d @ fresh_rows insts b d\<rparr>)"
  proof (rule bulk_create_ok)
    show "distinct (map fst (fresh_rows insts b d))"
      using assms(1) by (rule distinct_fresh_rows)
    show "fst ` set (fresh_rows insts b d) \<subseteq> set (question_ids d)"
      by (simp add: keys_fresh_rows)
    show "fst ` set (fresh_rows insts b d) \<inter> fst ` set (question_visits d) = {}"
      using assms(3) by (auto simp: keys_fresh_rows)
    show "\<forall>x \<in> set (fresh_rows insts b d). int4 (snd x)"
      using assms(4,2) by (rule fresh_rows_int4)
  qed
  moreover have "list_all (\<lambda>i. i \<in> fst ` set insts) (filter (\<lambda>i. i \<in> set b) (question_ids d))"
    using assms(2) by (auto simp: list_all_iff)
  ultimately show ?thesis
    by (simp add: create_batch_def Let_def fresh_rows_def)
qed

lemma create_batch_retrying_quiet:
  assumes "distinct (question_ids d)" and "set b \<subseteq> fst ` set insts"
    and "set b \<inter> fst ` set (question_visits d) = {}"
    and "\<forall>x \<in> set insts. int4 (snd x)"
  shows "create_batch_retrying insts b [] d =
           (None, d\<lparr>question_visits := question_visits d @ fresh_rows insts b d\<rparr>, [])"
  using create_batch_quiet [OF assms] by (simp add: create_batch_retrying_def)

lemma create_batches_quiet:
  "distinct (question_ids d) \<Longrightarrow> distinct (concat bs) \<Longrightarrow> set (concat bs) \<subseteq> fst ` set insts \<Longrightarrow>
   set (concat bs) \<inter> fst ` set (question_visits d) = {} \<Longrightarrow> \<forall>x \<in> set insts. int4 (snd x) \<Longrightarrow>
     create_batches insts bs [] d =
       (None, d\<lparr>question_visits := question_visits d @ concat (map (\<lambda>b. fresh_rows insts b d) bs)\<rparr>, [])"
proof (induction bs arbitrary: d)
  case Nil
  then show ?case by simp
next
  case (Cons b bs)
  let ?d' = "d\<lparr>question_visits := question_visits d @ fresh_rows insts b d\<rparr>"
  have first: "create_batch_retrying insts b [] d = (None, ?d', [])"
    using Cons.prems by (intro create_batch_retrying_quiet) auto
  note range = Cons.prems(5)
  have "set (concat bs) \<inter> fst ` set (question_visits ?d') = {}"
    using Cons.prems(2,4) by (auto simp: keys_fresh_rows image_Un)
  then have "create_batches insts bs [] ?d' =
       (None, ?d'\<lparr>question_visits := question_visits ?d' @ concat (map (\<lambda>b. fresh_rows insts b ?d') bs)\<rparr>, [])"
    using Cons.prems by (intro Cons.IH) auto
  then show ?case using first by simp
qed

lemma concat_chunked: "0 < n \<Longrightarrow> concat (chunked xs n) = xs"
proof (induction xs n rule: chunked.induct)
  case (1 xs n)
  show ?case
  proof (cases "xs = []")
    case True
    then show ?thesis by (subst chunked.simps) simp
  next
    case False
    then have "chunked xs n = take n xs # chunked (drop n xs) n"
      using "1.prems" by (subst chunked.simps) simp
    then show ?thesis using 1 False by simp
  qed
qed

lemma concat_fresh_rows:
  "distinct (map fst insts) \<Longrightarrow> set (concat bs) \<subseteq> fst ` set insts \<Longrightarrow>
     set (concat (map (\<lambda>b. fresh_rows insts b d) bs)) =
       {(i, v). (i, v) \<in> set insts \<and> i \<in> set (concat bs) \<and> i \<in> set (question_ids d)}"
proof (induction bs)
  case Nil
  then show ?case by simp
next
  case (Cons b bs)
  have b: "set (fresh_rows insts b d) =
           {(i, v). (i, v) \<in> set insts \<and> i \<in> set b \<and> i \<in> set (question_ids d)}"
    using Cons.prems by (intro set_fresh_rows) simp_all
  have bs: "set (concat (map (\<lambda>b. fresh_rows insts b d) bs)) =
       {(i, v). (i, v) \<in> set insts \<and> i \<in> set (concat bs) \<and> i \<in> set (question_ids d)}"
    using Cons.prems by (intro Cons.IH) simp_all
  show ?case unfolding list.map concat.simps set_append b bs by auto
qed

lemma keys_concat_fresh_rows:
  "fst ` set (concat (map (\<lambda>b. fresh_rows insts b d) bs)) = set (concat bs) \<inter> set (question_ids d)"
  by (induction bs) (simp_all add: image_Un keys_fresh_rows Int_Un_distrib2)

lemma distinct_concat_fresh_rows:
  "distinct (question_ids d) \<Longrightarrow> distinct (concat bs) \<Longrightarrow>
     distinct (map fst (concat (map (\<lambda>b. fresh_rows insts b d) bs)))"
proof (induction bs)
  case Nil
  then show ?case by simp
next
  case (Cons b bs)
  have "set b \<inter> set (concat bs) = {}" using Cons.prems(2) by simp
  then have "fst ` set (fresh_rows insts b d) \<inter>
        fst ` set (concat (map (\<lambda>b. fresh_rows insts b d) bs)) = {}"
    unfolding keys_fresh_rows keys_concat_fresh_rows by blast
  moreover have "distinct (map fst (concat (map (\<lambda>b. fresh_rows insts b d) bs)))"
    using Cons by simp
  ultimately show ?case using Cons.prems(1) by (simp add: distinct_fresh_rows)
qed


lemma set_fresh:
  "distinct (map fst insts) \<Longrightarrow>
     set (fresh insts d) = {(i, v). (i, v) \<in> set insts \<and> i \<in> set (question_ids d)}"
  unfolding fresh_def
  by (subst concat_fresh_rows) (force simp: concat_chunked)+

lemma distinct_fresh:
  "distinct (map fst insts) \<Longrightarrow> distinct (question_ids d) \<Longrightarrow> distinct (map fst (fresh insts d))"
  unfolding fresh_def by (intro distinct_concat_fresh_rows) (simp_all add: concat_chunked)

lemma update_batch_quiet:
  assumes "distinct (map fst insts)" and "distinct (question_ids d)"
    and "\<forall>x \<in> set insts. int4 (snd x)"
  shows "update_batch insts [] d =
           (None,
            d\<lparr>question_visits :=
                filter (\<lambda>(i, v). i \<notin> fst ` set insts) (question_visits d) @ fresh insts d\<rparr>,
            [])"
proof -
  let ?d1 = "d\<lparr>question_visits := filter (\<lambda>(i, v). i \<notin> set (map fst insts)) (question_visits d)\<rparr>"
  let ?bs = "chunked (map fst insts) 1000"
  have cc: "concat ?bs = map fst insts" by (simp add: concat_chunked)
  have "set (concat ?bs) \<inter> fst ` set (question_visits ?d1) = {}"
    unfolding cc by force
  then have "create_batches insts ?bs [] ?d1 =
       (None, ?d1\<lparr>question_visits := question_visits ?d1 @ concat (map (\<lambda>b. fresh_rows insts b ?d1) ?bs)\<rparr>, [])"
    using assms by (intro create_batches_quiet) (simp_all add: cc)
  then show ?thesis
    by (simp add: update_batch_def Let_def fresh_def)
qed

lemma update_fresh_key:
  "k \<notin> fst ` set al \<Longrightarrow> AList.update k v al = al @ [(k, v)]"
  by (induction al) auto


lemma reload_loop_quiet:
  assumes "distinct (map fst (insts @ rest))" and "distinct (question_ids d)"
    and "i + length rest = tc + 1" and "rest = [] \<longrightarrow> insts = []"
    and "\<forall>x \<in> set (insts @ rest). int4 (snd x)"
  shows "\<exists>news. reload_loop tc i insts rest [] d =
           (None,
            d\<lparr>question_visits :=
                filter (\<lambda>(k, v). k \<notin> fst ` set (insts @ rest)) (question_visits d) @ news\<rparr>,
            []) \<and>
           distinct (map fst news) \<and>
           set news = {(k, v). (k, v) \<in> set (insts @ rest) \<and> k \<in> set (question_ids d)}"
  using assms
proof (induction rest arbitrary: i insts d)
  case Nil
  then have "insts = []" by simp
  then show ?case by (intro exI [of _ "[]"]) (simp add: case_prod_unfold)
next
  case (Cons kv rest)
  obtain k v where kv: "kv = (k, v)" by (cases kv)
  let ?insts' = "insts @ [(k, v)]"
  have fresh_k: "k \<notin> fst ` set insts" using Cons.prems(1) kv by auto
  have upd: "AList.update k v insts = ?insts'" using fresh_k by (rule update_fresh_key)
  have dist': "distinct (map fst (?insts' @ rest))" using Cons.prems(1) kv by simp
  have same: "set (?insts' @ rest) = set (insts @ kv # rest)" using kv by auto
  have range': "\<forall>x \<in> set (?insts' @ rest). int4 (snd x)"
    unfolding same by (rule Cons.prems(5))
  have range1: "\<forall>x \<in> set ?insts'. int4 (snd x)" and range2: "\<forall>x \<in> set ([] @ rest). int4 (snd x)"
    using range' by simp_all
  show ?case
  proof (cases "i mod 30000 \<noteq> 0 \<and> i \<noteq> tc")
    case True
    have "rest \<noteq> []" using True Cons.prems(3) by auto
    then have "\<exists>news. reload_loop tc (i + 1) ?insts' rest [] d =
           (None,
            d\<lparr>question_visits :=
                filter (\<lambda>(k, v). k \<notin> fst ` set (?insts' @ rest)) (question_visits d) @ news\<rparr>,
            []) \<and>
           distinct (map fst news) \<and>
           set news = {(k, v). (k, v) \<in> set (?insts' @ rest) \<and> k \<in> set (question_ids d)}"
      using dist' Cons.prems(2,3) range' by (intro Cons.IH) simp_all
    moreover have "reload_loop tc i insts (kv # rest) [] d =
                     reload_loop tc (i + 1) ?insts' rest [] d"
      using True kv upd by (simp add: Let_def)
    ultimately show ?thesis unfolding same by simp
  next
    case False
    let ?d1 = "d\<lparr>question_visits :=
                   filter (\<lambda>(i, v). i \<notin> fst ` set ?insts') (question_visits d) @ fresh ?insts' d\<rparr>"
    have d_insts: "distinct (map fst ?insts')" using dist' by simp
    have ub: "update_batch ?insts' [] d = (None, ?d1, [])"
      using d_insts Cons.prems(2) range1 by (rule update_batch_quiet)
    have "\<exists>news. reload_loop tc (i + 1) [] rest [] ?d1 =
           (None,
            ?d1\<lparr>question_visits :=
                  filter (\<lambda>(k, v). k \<notin> fst ` set ([] @ rest)) (question_visits ?d1) @ news\<rparr>,
            []) \<and>
           distinct (map fst news) \<and>
           set news = {(k, v). (k, v) \<in> set ([] @ rest) \<and> k \<in> set (question_ids ?d1)}"
      using dist' Cons.prems(2,3) range2 by (intro Cons.IH) simp_all
    then obtain news2 where
      run2: "reload_loop tc (i + 1) [] rest [] ?d1 =
           (None,
            ?d1\<lparr>question_visits :=
                  filter (\<lambda>(k, v). k \<notin> fst ` set rest) (question_visits ?d1) @ news2\<rparr>,
            [])"
      and d2: "distinct (map fst news2)"
      and s2: "set news2 = {(k, v). (k, v) \<in> set rest \<and> k \<in> set (question_ids d)}"
      by auto
    have step: "reload_loop tc i insts (kv # rest) [] d =
                  reload_loop tc (i + 1) [] rest [] ?d1"
    proof -
      have "reload_loop tc i insts ((k, v) # rest) [] d =
              (case update_batch ?insts' [] d of
                 (None, d', env') \<Rightarrow> reload_loop tc (i + 1) [] rest env' d'
               | failed \<Rightarrow> failed)"
        using False upd by (auto simp add: Let_def)
      then show ?thesis unfolding kv ub by simp
    qed
    have s1: "set (fresh ?insts' d) = {(i, v). (i, v) \<in> set ?insts' \<and> i \<in> set (question_ids d)}"
      using d_insts by (rule set_fresh)
    have d1: "distinct (map fst (fresh ?insts' d))"
      using d_insts Cons.prems(2) by (rule distinct_fresh)
    have keys1: "fst ` set (fresh ?insts' d) \<subseteq> fst ` set ?insts'"
      unfolding s1 by force
    have keys2: "fst ` set news2 \<subseteq> fst ` set rest"
      unfolding s2 by force
    have disj: "fst ` set ?insts' \<inter> fst ` set rest = {}"
      using dist' by auto
    have keep1: "filter (\<lambda>(k, v). k \<notin> fst ` set rest) (fresh ?insts' d) = fresh ?insts' d"
    proof (rule filter_True, intro ballI)
      fix x assume "x \<in> set (fresh ?insts' d)"
      then have "fst x \<in> fst ` set ?insts'" using keys1 by blast
      then have "fst x \<notin> fst ` set rest" using disj by blast
      then show "case x of (k, v) \<Rightarrow> k \<notin> fst ` set rest" by (simp add: case_prod_unfold)
    qed
    have old: "filter (\<lambda>(k, v). k \<notin> fst ` set rest)
                 (filter (\<lambda>(i, v). i \<notin> fst ` set ?insts') (question_visits d)) =
               filter (\<lambda>(k, v). k \<notin> fst ` set (insts @ kv # rest)) (question_visits d)"
      unfolding filter_filter using kv by (intro filter_cong) auto
    have vis: "filter (\<lambda>(k, v). k \<notin> fst ` set rest) (question_visits ?d1) @ news2 =
               filter (\<lambda>(k, v). k \<notin> fst ` set (insts @ kv # rest)) (question_visits d) @
                 (fresh ?insts' d @ news2)"
      using keep1 old by simp
    have dn: "distinct (map fst (fresh ?insts' d @ news2))"
    proof -
      have "fst ` set (fresh ?insts' d) \<inter> fst ` set news2 = {}"
        using keys1 keys2 disj by blast
      then show ?thesis using d1 d2 by simp
    qed
    have sn: "set (fresh ?insts' d @ news2) =
                {(k, v). (k, v) \<in> set (insts @ kv # rest) \<and> k \<in> set (question_ids d)}"
    proof -
      have "set (insts @ kv # rest) = set ?insts' \<union> set rest" using kv by auto
      then show ?thesis unfolding set_append s1 s2 by blast
    qed
    show ?thesis
      using step run2 vis dn sn by (intro exI [of _ "fresh ?insts' d @ news2"]) simp
  qed
qed


lemma reload_quiet:
  assumes "distinct (map fst pv)" and "distinct (question_ids d)"
    and "\<forall>x \<in> set pv. int4 (snd x)"
  shows "\<exists>news. reload_from_analytics pv [] d =
           (None,
            d\<lparr>question_visits :=
                filter (\<lambda>(k, v). k \<notin> fst ` set pv) (question_visits d) @ news\<rparr>) \<and>
           distinct (map fst news) \<and>
           set news = {(k, v). (k, v) \<in> set pv \<and> k \<in> set (question_ids d)}"
proof -
  have "\<exists>news. reload_loop (length pv) 1 [] pv [] d =
           (None,
            d\<lparr>question_visits :=
                filter (\<lambda>(k, v). k \<notin> fst ` set ([] @ pv)) (question_visits d) @ news\<rparr>,
            []) \<and>
           distinct (map fst news) \<and>
           set news = {(k, v). (k, v) \<in> set ([] @ pv) \<and> k \<in> set (question_ids d)}"
    using assms by (intro reload_loop_quiet) simp_all
  then show ?thesis by (auto simp: reload_from_analytics_def)
qed

lemma refer_delete_questions:
  "visits_refer_to_questions d \<Longrightarrow> visits_refer_to_questions (delete_questions gone d)"
  by (auto simp: visits_refer_to_questions_def delete_questions_def question_ids_def
        list_all_iff)

lemma refer_bulk_create:
  "bulk_create rows d = Inr d' \<Longrightarrow> visits_refer_to_questions d \<Longrightarrow>
     visits_refer_to_questions d'"
  by (auto simp: bulk_create_def visits_refer_to_questions_def question_ids_def
        list_all_iff list_ex_iff split: if_splits)

lemma refer_create_batch:
  assumes "visits_refer_to_questions d"
  shows "visits_refer_to_questions (fst (snd (create_batch insts b env d)))"
proof -
  let ?d1 = "case env of [] \<Rightarrow> d | gone # _ \<Rightarrow> delete_questions gone d"
  have d1: "visits_refer_to_questions ?d1"
    using assms by (cases env) (simp_all add: refer_delete_questions)
  show ?thesis
    using d1 by (auto simp: create_batch_def Let_def dest: refer_bulk_create split: sum.splits)
qed

lemma refer_create_batch_retrying:
  assumes "visits_refer_to_questions d"
  shows "visits_refer_to_questions (fst (snd (create_batch_retrying insts b env d)))"
proof (cases "create_batch insts b env d")
  case (fields r d1 env1)
  have d1: "visits_refer_to_questions d1"
    using refer_create_batch [OF assms, of insts b env] fields by simp
  show ?thesis
  proof (cases "r = Some IntegrityError")
    case True
    then have "create_batch_retrying insts b env d = create_batch insts b env1 d1"
      using fields by (simp add: create_batch_retrying_def)
    then show ?thesis using refer_create_batch [OF d1, of insts b env1] by simp
  next
    case False
    then have "create_batch_retrying insts b env d = (r, d1, env1)"
      using fields by (auto simp: create_batch_retrying_def split: option.splits error.splits)
    then show ?thesis using d1 by simp
  qed
qed

lemma refer_create_batches:
  "visits_refer_to_questions d \<Longrightarrow>
     visits_refer_to_questions (fst (snd (create_batches insts bs env d)))"
proof (induction bs arbitrary: env d)
  case Nil
  then show ?case by simp
next
  case (Cons b bs)
  show ?case
  proof (cases "create_batch_retrying insts b env d")
    case (fields r d' env')
    have d': "visits_refer_to_questions d'"
      using refer_create_batch_retrying [OF Cons.prems, of insts b env] fields by simp
    show ?thesis using fields d' Cons.IH [OF d', of env'] by (cases r) simp_all
  qed
qed

lemma refer_update_batch:
  assumes "visits_refer_to_questions d"
  shows "visits_refer_to_questions (fst (snd (update_batch insts env d)))"
proof -
  have "visits_refer_to_questions
          (d\<lparr>question_visits :=
               filter (\<lambda>(i, v). i \<notin> set (map fst insts)) (question_visits d)\<rparr>)"
    using assms by (auto simp: visits_refer_to_questions_def question_ids_def list_all_iff)
  then show ?thesis unfolding update_batch_def Let_def by (rule refer_create_batches)
qed

lemma refer_reload_loop:
  "visits_refer_to_questions d \<Longrightarrow>
     visits_refer_to_questions (fst (snd (reload_loop tc i insts rest env d)))"
proof (induction rest arbitrary: i insts env d)
  case Nil
  then show ?case by simp
next
  case (Cons kv rest)
  obtain k v where kv: "kv = (k, v)" by (cases kv)
  show ?case
  proof (cases "i mod 30000 \<noteq> 0 \<and> i \<noteq> tc")
    case True
    then show ?thesis using Cons.IH [OF Cons.prems, of "i + 1" "AList.update k v insts" env] kv
      by (simp add: Let_def)
  next
    case False
    show ?thesis
    proof (cases "update_batch (AList.update k v insts) env d")
      case (fields r d' env')
      have d': "visits_refer_to_questions d'"
        using refer_update_batch [OF Cons.prems, of "AList.update k v insts" env] fields by simp
      show ?thesis
        using fields False kv d' Cons.IH [OF d', of "i + 1" "[]" env']
        by (cases r) (auto simp add: Let_def)
    qed
  qed
qed

lemma refer_rolled_back: "visits_refer_to_questions (rolled_back d0 d)"
  by (auto simp: visits_refer_to_questions_def rolled_back_def question_ids_def list_all_iff)

lemma refer_reload_from_analytics:
  assumes "visits_refer_to_questions d"
  shows "visits_refer_to_questions (snd (reload_from_analytics pageviews env d))"
proof (cases "reload_loop (length pageviews) 1 [] pageviews env d")
  case (fields r d' env')
  have "visits_refer_to_questions d'"
    using refer_reload_loop [OF assms, of "length pageviews" 1 "[]" pageviews env] fields by simp
  then show ?thesis using fields
    by (cases r) (simp_all add: reload_from_analytics_def refer_rolled_back)
qed

lemma reload_quiet_twice:
  assumes "distinct (map fst pageviews)" and "distinct (question_ids d)"
    and "\<forall>x \<in> set pageviews. int4 (snd x)"
  shows "\<exists>d1 d2.
           reload_from_analytics pageviews [] d = (None, d1) \<and>
           reload_from_analytics pageviews [] d1 = (None, d2) \<and>
           set (question_visits d2) = set (question_visits d1) \<and>
           set (question_visits d1) =
             {(i, v). (i, v) \<in> set (question_visits d) \<and> i \<notin> fst ` set pageviews} \<union>
             {(i, v). (i, v) \<in> set pageviews \<and> i \<in> set (question_ids d)} \<and>
           distinct (map fst (filter (\<lambda>(i, v). i \<in> fst ` set pageviews) (question_visits d1))) \<and>
           fst ` set (filter (\<lambda>(i, v). i \<in> fst ` set pageviews) (question_visits d1)) \<subseteq>
             set (question_ids d1) \<and>
           questions d2 = questions d \<and> questions d1 = questions d"
proof -
  let ?K = "fst ` set pageviews"
  let ?N = "{(i, v). (i, v) \<in> set pageviews \<and> i \<in> set (question_ids d)}"
  obtain news1 where
    run1: "reload_from_analytics pageviews [] d =
             (None, d\<lparr>question_visits :=
                        filter (\<lambda>(k, v). k \<notin> ?K) (question_visits d) @ news1\<rparr>)"
    and dn1: "distinct (map fst news1)" and sn1: "set news1 = ?N"
    using reload_quiet [OF assms] by blast
  let ?old = "filter (\<lambda>(k, v). k \<notin> ?K) (question_visits d)"
  let ?d1 = "d\<lparr>question_visits := ?old @ news1\<rparr>"
  have ids1: "question_ids ?d1 = question_ids d" by simp
  obtain news2 where
    run2: "reload_from_analytics pageviews [] ?d1 =
             (None, ?d1\<lparr>question_visits :=
                          filter (\<lambda>(k, v). k \<notin> ?K) (question_visits ?d1) @ news2\<rparr>)"
    and sn2: "set news2 = ?N"
    using reload_quiet [of pageviews ?d1] assms ids1 by auto
  let ?d2 = "?d1\<lparr>question_visits := filter (\<lambda>(k, v). k \<notin> ?K) (question_visits ?d1) @ news2\<rparr>"
  have keysN: "fst ` set news1 \<subseteq> ?K" unfolding sn1 by force
  have drop1: "filter (\<lambda>(k, v). k \<notin> ?K) news1 = []"
  proof (rule filter_False, intro ballI)
    fix x assume "x \<in> set news1"
    then have "fst x \<in> ?K" using keysN by blast
    then show "\<not> (case x of (k, v) \<Rightarrow> k \<notin> ?K)" by (simp add: case_prod_unfold)
  qed
  have keep1: "filter (\<lambda>(k, v). k \<in> ?K) news1 = news1"
  proof (rule filter_True, intro ballI)
    fix x assume "x \<in> set news1"
    then have "fst x \<in> ?K" using keysN by blast
    then show "case x of (k, v) \<Rightarrow> k \<in> ?K" by (simp add: case_prod_unfold)
  qed
  have none_old: "filter (\<lambda>(k, v). k \<in> ?K) ?old = []"
    unfolding filter_filter by (rule filter_False) auto
  have again: "filter (\<lambda>(k, v). k \<notin> ?K) ?old = ?old"
    unfolding filter_filter by (intro filter_cong) auto
  have set_old: "set ?old = {(i, v). (i, v) \<in> set (question_visits d) \<and> i \<notin> ?K}"
    by auto
  have v1: "set (question_visits ?d1) = set ?old \<union> ?N" using sn1 by simp
  have v2: "set (question_visits ?d2) = set ?old \<union> ?N" using sn2 drop1 again by simp
  have one: "distinct (map fst (filter (\<lambda>(i, v). i \<in> ?K) (question_visits ?d1)))"
    using dn1 keep1 none_old by simp
  have exist: "fst ` set (filter (\<lambda>(i, v). i \<in> ?K) (question_visits ?d1)) \<subseteq>
                 set (question_ids ?d1)"
    using keep1 none_old sn1 by force
  show ?thesis
    using run1 run2 v1 v2 set_old one exist
    by (intro exI [of _ ?d1] exI [of _ ?d2]) simp
qed

text \<open>
  A count that the column cannot hold, for a question that exists: the INSERT raises
  \<open>DataError\<close>, which no handler catches, and the run is rolled back.
\<close>

lemma reload_count_out_of_range_example:
  "reload_from_analytics [(1, 42), (2, 2147483648)] [] ex_visits_db =
     (Some DataError, ex_visits_db)"
  by code_simp

text \<open>
  C2. With the same input (a dictionary, so its question ids are distinct; every count
  fits the 32-bit column \<open>visits\<close>) and no other transaction interfering, a first run
  of \<open>reload_from_analytics\<close> succeeds and a second run right after it succeeds and
  leaves the same set of QuestionVisits records. After either run the records are those
  of question ids outside the input, untouched, and one record with the given count for
  each question id of the input that is a stored question. And whatever the counts are
  and whatever other transactions delete meanwhile, a run that starts with every record
  belonging to a stored question ends so: it creates no record for a question id that is
  not stored.
\<close>

theorem reload_from_analytics_idempotent:
  assumes "distinct (map fst pageviews)" and "distinct (question_ids d)"
    and "\<forall>(i, v) \<in> set pageviews. int4 v"
  shows "(\<exists>d1 d2.
           reload_from_analytics pageviews [] d = (None, d1) \<and>
           reload_from_analytics pageviews [] d1 = (None, d2) \<and>
           set (question_visits d2) = set (question_visits d1) \<and>
           set (question_visits d1) =
             {(i, v). (i, v) \<in> set (question_visits d) \<and> i \<notin> fst ` set pageviews} \<union>
             {(i, v). (i, v) \<in> set pageviews \<and> i \<in> set (question_ids d)} \<and>
           distinct (map fst (filter (\<lambda>(i, v). i \<in> fst ` set pageviews) (question_visits d1))) \<and>
           fst ` set (filter (\<lambda>(i, v). i \<in> fst ` set pageviews) (question_visits d1)) \<subseteq>
             set (question_ids d1) \<and>
           questions d2 = questions d \<and> questions d1 = questions d) \<and>
         (visits_refer_to_questions d \<longrightarrow>
            visits_refer_to_questions (snd (reload_from_analytics pageviews env d)))"
proof -
  have range: "\<forall>x \<in> set pageviews. int4 (snd x)"
    using assms(3) by auto
  show ?thesis
    using reload_quiet_twice [OF assms(1,2) range]
          refer_reload_from_analytics [of d pageviews env]
    by blast
qed

theorem reload_from_analytics_idempotent_witness:
  "distinct (map fst ex_pageviews) \<and> distinct (question_ids ex_visits_db) \<and>
   list_all (\<lambda>(i, v). int4 v) ex_pageviews \<and>
   (\<exists>d1 d2.
      reload_from_analytics ex_pageviews [] ex_visits_db = (None, d1) \<and>
      reload_from_analytics ex_pageviews [] d1 = (None, d2) \<and>
      set (question_visits d2) = set (question_visits d1) \<and>
      set (question_visits d1) = {(3, 6), (1, 42), (2, 27)}) \<and>
   visits_refer_to_questions ex_visits_db \<and>
   visits_refer_to_questions (snd (reload_from_analytics ex_pageviews [[2]] ex_visits_db))"
proof -
  have h1: "distinct (map fst ex_pageviews)" by (simp add: ex_pageviews_def)
  have h2: "distinct (question_ids ex_visits_db)"
    by (simp add: question_ids_def ex_visits_db_def ex_question_at_def)
  have h3: "visits_refer_to_questions ex_visits_db"
    by (simp add: visits_refer_to_questions_def question_ids_def ex_visits_db_def
          ex_question_at_def)
  have h4: "list_all (\<lambda>(i, v). int4 v) ex_pageviews"
    by (simp add: ex_pageviews_def int4_def)
  then have h4': "\<forall>(i, v) \<in> set ex_pageviews. int4 v"
    by (simp add: list_all_iff)
  have s: "{(i, v). (i, v) \<in> set (question_visits ex_visits_db) \<and> i \<notin> fst ` set ex_pageviews} \<union>
           {(i, v). (i, v) \<in> set ex_pageviews \<and> i \<in> set (question_ids ex_visits_db)} =
           {(3, 6), (1, 42), (2, 27)}"
    by (auto simp: question_ids_def ex_visits_db_def ex_question_at_def ex_pageviews_def)
  show ?thesis
    using reload_from_analytics_idempotent [OF h1 h2 h4', of "[[2]]"] h1 h2 h3 h4
    unfolding s by blast
qed

subsection \<open>Retry and abort of the reconciliation\<close>

lemma question_ids_delete_questions:
  "question_ids (delete_questions gone d) = filter (\<lambda>i. i \<notin> set gone) (question_ids d)"
  by (simp add: question_ids_def delete_questions_def filter_map comp_def)

text \<open>
  Where the integrity error comes from: on a batch whose stale rows are deleted and whose
  counts fit the column, the INSERT fails exactly when a question of the batch that the
  filter still found is deleted before the INSERT. Otherwise the rows of the questions
  found are inserted.
\<close>

lemma create_batch_race:
  assumes "distinct (question_ids d)" and "set b \<subseteq> fst ` set insts"
    and "set b \<inter> fst ` set (question_visits d) = {}"
    and "\<forall>x \<in> set insts. int4 (snd x)"
  shows "create_batch insts b (gone # env) d =
           (if set gone \<inter> set b \<inter> set (question_ids d) = {}
            then (None,
                  (delete_questions gone d)
                    \<lparr>question_visits :=
                       question_visits (delete_questions gone d) @ fresh_rows insts b d\<rparr>,
                  env)
            else (Some IntegrityError, delete_questions gone d, env))"
proof -
  let ?ids = "filter (\<lambda>i. i \<in> set b) (question_ids d)"
  let ?d1 = "delete_questions gone d"
  let ?rows = "fresh_rows insts b d"
  have known: "list_all (\<lambda>i. i \<in> fst ` set insts) ?ids"
    using assms(2) by (auto simp: list_all_iff)
  have keys: "map fst ?rows = ?ids" by (simp add: fresh_rows_def comp_def)
  have run: "create_batch insts b (gone # env) d =
               (case bulk_create ?rows ?d1 of
                  Inl e \<Rightarrow> (Some e, ?d1, env) | Inr d2 \<Rightarrow> (None, d2, env))"
    using known by (simp add: create_batch_def Let_def fresh_rows_def)
  have fits: "\<not> list_ex (\<lambda>(i, v). \<not> int4 v) ?rows"
    using fresh_rows_int4 [OF assms(4,2), of d] by (auto simp: list_ex_iff)
  have gone_iff: "list_ex (\<lambda>(i, v). i \<notin> set (question_ids ?d1)) ?rows \<longleftrightarrow>
                    set gone \<inter> set b \<inter> set (question_ids d) \<noteq> {}"
    by (auto simp: list_ex_iff question_ids_delete_questions fresh_rows_def)
  have dist: "distinct (map fst ?rows)" unfolding keys using assms(1) by simp
  have "fst ` set (question_visits ?d1) \<subseteq> fst ` set (question_visits d)"
    by (auto simp: delete_questions_def)
  then have unique: "\<not> list_ex (\<lambda>(i, v). i \<in> fst ` set (question_visits ?d1)) ?rows"
    using assms(3) by (auto simp: list_ex_iff fresh_rows_def)
  show ?thesis
    unfolding run using fits gone_iff dist unique by (simp add: bulk_create_def)
qed

text \<open>
  The retry under interference: \<open>g1\<close> and \<open>g2\<close> are the questions deleted under the
  first and the second attempt.
\<close>

lemma create_batch_retrying_race:
  assumes "distinct (question_ids d)" and "set b \<subseteq> fst ` set insts"
    and "set b \<inter> fst ` set (question_visits d) = {}"
    and "\<forall>x \<in> set insts. int4 (snd x)"
  shows "create_batch_retrying insts b (g1 # g2 # env) d =
           (if set g1 \<inter> set b \<inter> set (question_ids d) = {}
            then (None,
                  (delete_questions g1 d)
                    \<lparr>question_visits :=
                       question_visits (delete_questions g1 d) @ fresh_rows insts b d\<rparr>,
                  g2 # env)
            else if set g2 \<inter> set b \<inter> set (question_ids (delete_questions g1 d)) = {}
            then (None,
                  (delete_questions g2 (delete_questions g1 d))
                    \<lparr>question_visits :=
                       question_visits (delete_questions g2 (delete_questions g1 d)) @
                       fresh_rows insts b (delete_questions g1 d)\<rparr>,
                  env)
            else (Some IntegrityError, delete_questions g2 (delete_questions g1 d), env))"
proof (cases "set g1 \<inter> set b \<inter> set (question_ids d) = {}")
  case True
  then have "create_batch insts b (g1 # g2 # env) d =
               (None,
                (delete_questions g1 d)
                  \<lparr>question_visits :=
                     question_visits (delete_questions g1 d) @ fresh_rows insts b d\<rparr>,
                g2 # env)"
    using create_batch_race [OF assms, of g1 "g2 # env"] by simp
  then show ?thesis using True by (simp add: create_batch_retrying_def)
next
  case False
  let ?d1 = "delete_questions g1 d"
  have first: "create_batch insts b (g1 # g2 # env) d = (Some IntegrityError, ?d1, g2 # env)"
    using create_batch_race [OF assms, of g1 "g2 # env"] False by simp
  have d1: "distinct (question_ids ?d1)"
    using assms(1) by (simp add: question_ids_delete_questions)
  have "fst ` set (question_visits ?d1) \<subseteq> fst ` set (question_visits d)"
    by (auto simp: delete_questions_def)
  then have v1: "set b \<inter> fst ` set (question_visits ?d1) = {}"
    using assms(3) by blast
  have "create_batch_retrying insts b (g1 # g2 # env) d = create_batch insts b (g2 # env) ?d1"
    using first by (simp add: create_batch_retrying_def)
  then show ?thesis
    using create_batch_race [OF d1 assms(2) v1 assms(4), of g2 env] False by simp
qed

lemma create_batches_append:
  "create_batches insts (bs1 @ bs2) env d =
     (case create_batches insts bs1 env d of
        (None, d', env') \<Rightarrow> create_batches insts bs2 env' d'
      | failed \<Rightarrow> failed)"
proof (induction bs1 arbitrary: env d)
  case Nil
  then show ?case by simp
next
  case (Cons b bs1)
  show ?case
  proof (cases "create_batch_retrying insts b env d")
    case (fields r d' env')
    then show ?thesis using Cons.IH [of env' d'] by (cases r) simp_all
  qed
qed

lemma reload_loop_append:
  "xs \<noteq> [] \<Longrightarrow> (i + length xs - 1) mod 30000 = 0 \<or> i + length xs - 1 = tc \<Longrightarrow>
     reload_loop tc i insts (xs @ ys) env d =
       (case reload_loop tc i insts xs env d of
          (None, d', env') \<Rightarrow> reload_loop tc (i + length xs) [] ys env' d'
        | failed \<Rightarrow> failed)"
proof (induction xs arbitrary: i insts env d)
  case Nil
  then show ?case by simp
next
  case (Cons kv xs)
  obtain k v where kv: "kv = (k, v)" by (cases kv)
  let ?insts' = "AList.update k v insts"
  show ?case
  proof (cases "xs = []")
    case True
    then have flush: "\<not> (i mod 30000 \<noteq> 0 \<and> i \<noteq> tc)" using Cons.prems(2) by auto
    show ?thesis
    proof (cases "update_batch ?insts' env d")
      case (fields r d' env')
      then show ?thesis using True flush kv by (cases r) (auto simp add: Let_def)
    qed
  next
    case False
    have next_flush: "(i + 1 + length xs - 1) mod 30000 = 0 \<or> i + 1 + length xs - 1 = tc"
      using Cons.prems(2) by simp
    have len: "i + 1 + length xs = i + length (kv # xs)" by simp
    note IH = Cons.IH [OF False next_flush, unfolded len]
    show ?thesis
    proof (cases "i mod 30000 \<noteq> 0 \<and> i \<noteq> tc")
      case True
      then show ?thesis using IH [of ?insts' env d] kv by (simp add: Let_def)
    next
      case flush: False
      show ?thesis
      proof (cases "update_batch ?insts' env d")
        case (fields r d' env')
        then show ?thesis using flush kv IH [of "[]" env' d'] by (cases r) (auto simp add: Let_def)
      qed
    qed
  qed
qed


lemma reload_loop_batch:
  assumes "distinct (map fst (insts @ pre))" and "pre \<noteq> []"
    and "\<forall>j. j + 1 < length pre \<longrightarrow> (i + j) mod 30000 \<noteq> 0 \<and> i + j \<noteq> tc"
    and "(i + length pre - 1) mod 30000 = 0 \<or> i + length pre - 1 = tc"
  shows "reload_loop tc i insts (pre @ rest) env d =
           (case update_batch (insts @ pre) env d of
              (None, d', env') \<Rightarrow> reload_loop tc (i + length pre) [] rest env' d'
            | failed \<Rightarrow> failed)"
  using assms
proof (induction pre arbitrary: i insts)
  case Nil
  then show ?case by simp
next
  case (Cons kv pre)
  obtain k v where kv: "kv = (k, v)" by (cases kv)
  have "k \<notin> fst ` set insts" using Cons.prems(1) kv by auto
  then have upd: "AList.update k v insts = insts @ [(k, v)]" by (rule update_fresh_key)
  show ?case
  proof (cases "pre = []")
    case True
    then have "\<not> (i mod 30000 \<noteq> 0 \<and> i \<noteq> tc)" using Cons.prems(4) by auto
    then have main: "reload_loop tc i insts ((kv # pre) @ rest) env d =
            (case update_batch (insts @ [(k, v)]) env d of
               (None, d', env') \<Rightarrow> reload_loop tc (i + 1) [] rest env' d'
             | failed \<Rightarrow> failed)"
      using True kv upd by (auto simp add: Let_def)
    have e1: "i + length (kv # pre) = i + 1" using True by simp
    have e2: "insts @ kv # pre = insts @ [(k, v)]" using True kv by simp
    show ?thesis unfolding e1 e2 by (rule main)
  next
    case False
    have now: "i mod 30000 \<noteq> 0 \<and> i \<noteq> tc"
      using Cons.prems(3) [rule_format, of 0] False by (cases pre) simp_all
    have later: "\<forall>j. j + 1 < length pre \<longrightarrow> (i + 1 + j) mod 30000 \<noteq> 0 \<and> i + 1 + j \<noteq> tc"
    proof (intro allI impI)
      fix j assume "j + 1 < length pre"
      then show "(i + 1 + j) mod 30000 \<noteq> 0 \<and> i + 1 + j \<noteq> tc"
        using Cons.prems(3) [rule_format, of "j + 1"] by (simp add: add.commute add.left_commute)
    qed
    have last: "(i + 1 + length pre - 1) mod 30000 = 0 \<or> i + 1 + length pre - 1 = tc"
      using Cons.prems(4) by simp
    have dist: "distinct (map fst ((insts @ [(k, v)]) @ pre))" using Cons.prems(1) kv by simp
    have len: "i + 1 + length pre = i + length (kv # pre)" by simp
    have app: "(insts @ [(k, v)]) @ pre = insts @ kv # pre" using kv by simp
    note IH = Cons.IH [OF dist False later last, unfolded len app]
    have "reload_loop tc i insts ((kv # pre) @ rest) env d =
            reload_loop tc (i + 1) (insts @ [(k, v)]) (pre @ rest) env d"
      using now kv upd by (simp add: Let_def)
    then show ?thesis using IH by simp
  qed
qed


lemma create_batch_retrying_first_fails:
  "create_batch insts b env d = (Some IntegrityError, d1, env1) \<Longrightarrow>
     create_batch_retrying insts b env d = create_batch insts b env1 d1"
  by (simp add: create_batch_retrying_def)

lemma reload_aborts:
  assumes dist: "distinct (map fst pageviews)"
    and split: "pageviews = done @ batch @ rest"
    and full: "30000 dvd length done"
    and batch: "batch \<noteq> []" "length batch \<le> 30000" "length batch = 30000 \<or> rest = []"
    and before: "reload_loop (length pageviews) 1 [] done env0 d0 = (None, da, enva)"
    and chunks: "chunked (map fst batch) 1000 = bs1 @ b # bs2"
    and earlier: "create_batches batch bs1 enva
                    (da\<lparr>question_visits :=
                          filter (\<lambda>(i, v). i \<notin> set (map fst batch)) (question_visits da)\<rparr>) =
                  (None, db, envb)"
    and first: "create_batch batch b envb db = (Some IntegrityError, dc, envc)"
    and second: "create_batch batch b envc dc = (Some IntegrityError, dd, envd)"
  shows "reload_from_analytics pageviews env0 d0 = (Some IntegrityError, rolled_back d0 dd)"
proof -
  let ?tc = "length pageviews"
  let ?i = "1 + length done"
  have retry: "create_batch_retrying batch b envb db = (Some IntegrityError, dd, envd)"
    using create_batch_retrying_first_fails [OF first] second by simp
  have "create_batches batch (bs1 @ b # bs2) enva
          (da\<lparr>question_visits :=
                filter (\<lambda>(i, v). i \<notin> set (map fst batch)) (question_visits da)\<rparr>) =
        (Some IntegrityError, dd, envd)"
    using earlier retry by (simp add: create_batches_append)
  then have ub: "update_batch batch enva da = (Some IntegrityError, dd, envd)"
    using chunks by (simp add: update_batch_def Let_def)
  have dbatch: "distinct (map fst ([] @ batch))" using dist split by simp
  have nofl: "\<forall>j. j + 1 < length batch \<longrightarrow> (?i + j) mod 30000 \<noteq> 0 \<and> ?i + j \<noteq> ?tc"
  proof (intro allI impI)
    fix j assume j: "j + 1 < length batch"
    obtain m where m: "length done = 30000 * m" using full by (auto simp: dvd_def)
    have "(?i + j) mod 30000 = (j + 1) mod 30000" unfolding m by (simp add: add.commute)
    also have "\<dots> = j + 1" using j batch(2) by simp
    finally have "(?i + j) mod 30000 \<noteq> 0" by simp
    moreover have "?i + j \<noteq> ?tc" using j split by simp
    ultimately show "(?i + j) mod 30000 \<noteq> 0 \<and> ?i + j \<noteq> ?tc" by simp
  qed
  have fl: "(?i + length batch - 1) mod 30000 = 0 \<or> ?i + length batch - 1 = ?tc"
  proof (cases "rest = []")
    case True
    then show ?thesis using split by simp
  next
    case False
    then have "length batch = 30000" using batch(3) by simp
    then show ?thesis using full by (simp add: dvd_eq_mod_eq_0)
  qed
  have tail: "reload_loop ?tc ?i [] (batch @ rest) enva da = (Some IntegrityError, dd, envd)"
    using reload_loop_batch [OF dbatch batch(1) nofl fl, of rest enva da] ub by simp
  have loop: "reload_loop ?tc 1 [] pageviews env0 d0 = (Some IntegrityError, dd, envd)"
  proof (cases "done = []")
    case True
    then show ?thesis using before tail split by simp
  next
    case False
    have "(1 + length done - 1) mod 30000 = 0 \<or> 1 + length done - 1 = ?tc"
      using full by (simp add: dvd_eq_mod_eq_0)
    from reload_loop_append [OF False this, of "[]" "batch @ rest" env0 d0]
    show ?thesis using before tail split by simp
  qed
  then show ?thesis by (simp add: reload_from_analytics_def)
qed


lemma bulk_create_error:
  "bulk_create rows d = Inl e \<Longrightarrow>
     e = IntegrityError \<or> (e = DataError \<and> (\<exists>x \<in> set rows. \<not> int4 (snd x)))"
  by (force simp: bulk_create_def list_ex_iff split: if_splits)

lemma create_batch_outcome:
  assumes "set b \<subseteq> fst ` set insts"
  shows "fst (create_batch insts b env d) = None \<or>
         fst (create_batch insts b env d) = Some IntegrityError \<or>
         (fst (create_batch insts b env d) = Some DataError \<and>
          (\<exists>x \<in> set insts. \<not> int4 (snd x)))"
proof -
  let ?d1 = "case env of [] \<Rightarrow> d | gone # _ \<Rightarrow> delete_questions gone d"
  have known: "list_all (\<lambda>i. i \<in> fst ` set insts) (filter (\<lambda>i. i \<in> set b) (question_ids d))"
    using assms by (auto simp: list_all_iff)
  have run: "fst (create_batch insts b env d) =
               (case bulk_create (fresh_rows insts b d) ?d1 of Inl e \<Rightarrow> Some e | Inr d2 \<Rightarrow> None)"
    using known by (simp add: create_batch_def Let_def fresh_rows_def split: sum.splits)
  show ?thesis
  proof (cases "bulk_create (fresh_rows insts b d) ?d1")
    case (Inr d2)
    then show ?thesis using run by simp
  next
    case (Inl e)
    then consider "e = IntegrityError"
      | "e = DataError" "\<exists>x \<in> set (fresh_rows insts b d). \<not> int4 (snd x)"
      using bulk_create_error by blast
    then show ?thesis
    proof cases
      case 1
      then show ?thesis using run Inl by simp
    next
      case 2
      have "\<exists>x \<in> set insts. \<not> int4 (snd x)"
        using 2(2) fresh_rows_int4 [OF _ assms, of d] by blast
      then show ?thesis using run Inl 2(1) by simp
    qed
  qed
qed

lemma create_batch_retrying_outcome:
  assumes "set b \<subseteq> fst ` set insts"
  shows "fst (create_batch_retrying insts b env d) = None \<or>
         fst (create_batch_retrying insts b env d) = Some IntegrityError \<or>
         (fst (create_batch_retrying insts b env d) = Some DataError \<and>
          (\<exists>x \<in> set insts. \<not> int4 (snd x)))"
proof (cases "create_batch insts b env d")
  case (fields r d1 env1)
  show ?thesis
  proof (cases "r = Some IntegrityError")
    case True
    then have "create_batch_retrying insts b env d = create_batch insts b env1 d1"
      using fields by (simp add: create_batch_retrying_def)
    then show ?thesis using create_batch_outcome [OF assms, of env1 d1] by simp
  next
    case False
    then have "create_batch_retrying insts b env d = (r, d1, env1)"
      using fields by (auto simp: create_batch_retrying_def split: option.splits error.splits)
    then show ?thesis using create_batch_outcome [OF assms, of env d] fields by simp
  qed
qed

lemma create_batches_outcome:
  "\<forall>b \<in> set bs. set b \<subseteq> fst ` set insts \<Longrightarrow>
     fst (create_batches insts bs env d) = None \<or>
     fst (create_batches insts bs env d) = Some IntegrityError \<or>
     (fst (create_batches insts bs env d) = Some DataError \<and>
      (\<exists>x \<in> set insts. \<not> int4 (snd x)))"
proof (induction bs arbitrary: env d)
  case Nil
  then show ?case by simp
next
  case (Cons b bs)
  have b: "set b \<subseteq> fst ` set insts" using Cons.prems by simp
  show ?case
  proof (cases "create_batch_retrying insts b env d")
    case (fields r d' env')
    show ?thesis
    proof (cases r)
      case None
      then show ?thesis using fields Cons.IH [of env' d'] Cons.prems by simp
    next
      case (Some e)
      then have "create_batches insts (b # bs) env d = (Some e, d', env')"
        using fields by simp
      then show ?thesis
        using create_batch_retrying_outcome [OF b, of env d] fields Some by simp
    qed
  qed
qed

lemma set_chunked: "0 < n \<Longrightarrow> b \<in> set (chunked xs n) \<Longrightarrow> set b \<subseteq> set xs"
proof -
  assume "0 < n" "b \<in> set (chunked xs n)"
  then have "set b \<subseteq> set (concat (chunked xs n))" by auto
  then show ?thesis using \<open>0 < n\<close> by (simp add: concat_chunked)
qed

lemma update_batch_outcome:
  "fst (update_batch insts env d) = None \<or>
   fst (update_batch insts env d) = Some IntegrityError \<or>
   (fst (update_batch insts env d) = Some DataError \<and> (\<exists>x \<in> set insts. \<not> int4 (snd x)))"
proof -
  have "\<forall>b \<in> set (chunked (map fst insts) 1000). set b \<subseteq> fst ` set insts"
    using set_chunked [of 1000 _ "map fst insts"] by auto
  then show ?thesis unfolding update_batch_def Let_def by (rule create_batches_outcome)
qed

lemma set_update_subset: "set (AList.update k v al) \<subseteq> insert (k, v) (set al)"
  by (induction al) auto

lemma reload_loop_outcome:
  "fst (reload_loop tc i insts rest env d) = None \<or>
   fst (reload_loop tc i insts rest env d) = Some IntegrityError \<or>
   (fst (reload_loop tc i insts rest env d) = Some DataError \<and>
    (\<exists>x \<in> set insts \<union> set rest. \<not> int4 (snd x)))"
proof (induction rest arbitrary: i insts env d)
  case Nil
  then show ?case by simp
next
  case (Cons kv rest)
  obtain k v where kv: "kv = (k, v)" by (cases kv)
  let ?insts' = "AList.update k v insts"
  have sub: "set ?insts' \<subseteq> set insts \<union> set (kv # rest)"
    using set_update_subset [of k v insts] kv by auto
  show ?case
  proof (cases "i mod 30000 \<noteq> 0 \<and> i \<noteq> tc")
    case True
    then have step: "reload_loop tc i insts (kv # rest) env d =
                       reload_loop tc (i + 1) ?insts' rest env d"
      using kv by (simp add: Let_def)
    have "(\<exists>x \<in> set ?insts' \<union> set rest. \<not> int4 (snd x)) \<Longrightarrow>
            (\<exists>x \<in> set insts \<union> set (kv # rest). \<not> int4 (snd x))"
      using sub by auto
    then show ?thesis unfolding step using Cons.IH [of "i + 1" ?insts' env d] by blast
  next
    case False
    show ?thesis
    proof (cases "update_batch ?insts' env d")
      case (fields r d' env')
      show ?thesis
      proof (cases r)
        case None
        then have step: "reload_loop tc i insts (kv # rest) env d =
                           reload_loop tc (i + 1) [] rest env' d'"
          using fields False kv by (auto simp add: Let_def)
        show ?thesis unfolding step using Cons.IH [of "i + 1" "[]" env' d'] by auto
      next
        case (Some e)
        then have step: "reload_loop tc i insts (kv # rest) env d = (Some e, d', env')"
          using fields False kv by (auto simp add: Let_def)
        have "e = IntegrityError \<or> (e = DataError \<and> (\<exists>x \<in> set ?insts'. \<not> int4 (snd x)))"
          using update_batch_outcome [of ?insts' env d] fields Some by simp
        then show ?thesis unfolding step using sub by auto
      qed
    qed
  qed
qed

lemma reload_failure_rolls_back:
  assumes "fst (reload_from_analytics pageviews env d) = Some e"
  shows "(e = IntegrityError \<or> (e = DataError \<and> (\<exists>x \<in> set pageviews. \<not> int4 (snd x)))) \<and>
         question_visits (snd (reload_from_analytics pageviews env d)) =
           filter (\<lambda>(i, v). i \<in> set (question_ids (snd (reload_from_analytics pageviews env d))))
                  (question_visits d)"
proof (cases "reload_loop (length pageviews) 1 [] pageviews env d")
  case (fields r d' env')
  show ?thesis
  proof (cases r)
    case None
    then show ?thesis using assms fields by (simp add: reload_from_analytics_def)
  next
    case (Some e')
    then have "e' = IntegrityError \<or> (e' = DataError \<and> (\<exists>x \<in> set pageviews. \<not> int4 (snd x)))"
      using reload_loop_outcome [of "length pageviews" 1 "[]" pageviews env d] fields by simp
    then show ?thesis using assms fields Some
      by (auto simp add: reload_from_analytics_def rolled_back_def question_ids_def)
  qed
qed

text \<open>
  C3. For a sub-batch whose stale rows are deleted and whose counts fit the column, with
  \<open>g1\<close> and \<open>g2\<close> the questions that other transactions delete under the first and
  under the second INSERT: when \<open>g1\<close> holds no question of the sub-batch, the first
  attempt inserts the rows and there is no second attempt (\<open>g2\<close> is still to come).
  Otherwise the first attempt fails with the integrity error and the same sub-batch is
  attempted once more, on the questions that are left: when \<open>g2\<close> holds none of them the
  rows of these questions are inserted, otherwise the integrity error ends the sub-batch;
  there is no third attempt. When, in any batch of a run (after whole batches of 30,000
  and sub-batches of 1,000 that succeeded), the second attempt fails too, the run ends
  with the integrity error and the transaction is rolled back. Whenever a run ends with an
  error at all, the error is the integrity error, or the data error of a count that does
  not fit the column (never, when all counts fit), and the stored visits are the rows of
  the start (of the questions still stored): none of the run's deletions and insertions
  remain.
\<close>

theorem reload_retries_once_then_aborts:
  "(distinct (question_ids d) \<and> set b \<subseteq> fst ` set insts \<and>
    set b \<inter> fst ` set (question_visits d) = {} \<and> (\<forall>(i, v) \<in> set insts. int4 v) \<longrightarrow>
      create_batch_retrying insts b (g1 # g2 # env) d =
        (if set g1 \<inter> set b \<inter> set (question_ids d) = {}
         then (None,
               (delete_questions g1 d)
                 \<lparr>question_visits :=
                    question_visits (delete_questions g1 d) @ fresh_rows insts b d\<rparr>,
               g2 # env)
         else if set g2 \<inter> set b \<inter> set (question_ids (delete_questions g1 d)) = {}
         then (None,
               (delete_questions g2 (delete_questions g1 d))
                 \<lparr>question_visits :=
                    question_visits (delete_questions g2 (delete_questions g1 d)) @
                    fresh_rows insts b (delete_questions g1 d)\<rparr>,
               env)
         else (Some IntegrityError, delete_questions g2 (delete_questions g1 d), env))) \<and>
   (distinct (map fst pageviews) \<and> pageviews = done @ batch @ rest \<and>
    30000 dvd length done \<and> batch \<noteq> [] \<and> length batch \<le> 30000 \<and>
    (length batch = 30000 \<or> rest = []) \<and>
    reload_loop (length pageviews) 1 [] done env0 d0 = (None, da, enva) \<and>
    chunked (map fst batch) 1000 = bs1 @ b' # bs2 \<and>
    create_batches batch bs1 enva
      (da\<lparr>question_visits :=
            filter (\<lambda>(i, v). i \<notin> set (map fst batch)) (question_visits da)\<rparr>) =
      (None, db, envb) \<and>
    create_batch batch b' envb db = (Some IntegrityError, dc, envc) \<and>
    create_batch batch b' envc dc = (Some IntegrityError, dd, envd) \<longrightarrow>
      reload_from_analytics pageviews env0 d0 = (Some IntegrityError, rolled_back d0 dd)) \<and>
   (fst (reload_from_analytics pageviews env0 d0) = Some e \<longrightarrow>
      (e = IntegrityError \<or> e = DataError) \<and>
      ((\<forall>(i, v) \<in> set pageviews. int4 v) \<longrightarrow> e = IntegrityError) \<and>
      question_visits (snd (reload_from_analytics pageviews env0 d0)) =
        filter (\<lambda>(i, v). i \<in> set (question_ids (snd (reload_from_analytics pageviews env0 d0))))
               (question_visits d0))"
proof -
  have retry: "create_batch_retrying insts b (g1 # g2 # env) d =
        (if set g1 \<inter> set b \<inter> set (question_ids d) = {}
         then (None,
               (delete_questions g1 d)
                 \<lparr>question_visits :=
                    question_visits (delete_questions g1 d) @ fresh_rows insts b d\<rparr>,
               g2 # env)
         else if set g2 \<inter> set b \<inter> set (question_ids (delete_questions g1 d)) = {}
         then (None,
               (delete_questions g2 (delete_questions g1 d))
                 \<lparr>question_visits :=
                    question_visits (delete_questions g2 (delete_questions g1 d)) @
                    fresh_rows insts b (delete_questions g1 d)\<rparr>,
               env)
         else (Some IntegrityError, delete_questions g2 (delete_questions g1 d), env))"
    if "distinct (question_ids d)" and "set b \<subseteq> fst ` set insts"
      and "set b \<inter> fst ` set (question_visits d) = {}" and "\<forall>(i, v) \<in> set insts. int4 v"
  proof -
    have "\<forall>x \<in> set insts. int4 (snd x)" using that(4) by auto
    with that(1-3) show ?thesis by (rule create_batch_retrying_race)
  qed
  have failure: "(e = IntegrityError \<or> e = DataError) \<and>
      ((\<forall>(i, v) \<in> set pageviews. int4 v) \<longrightarrow> e = IntegrityError) \<and>
      question_visits (snd (reload_from_analytics pageviews env0 d0)) =
        filter (\<lambda>(i, v). i \<in> set (question_ids (snd (reload_from_analytics pageviews env0 d0))))
               (question_visits d0)"
    if "fst (reload_from_analytics pageviews env0 d0) = Some e"
    using reload_failure_rolls_back [OF that] by auto
  show ?thesis
    using retry failure
          reload_aborts [of pageviews "done" batch rest env0 d0 da enva bs1 b' bs2 db envb dc envc dd envd]
    by blast
qed

lemmas ex_visits_defs = ex_counts_def ex_cleared_db_def ex_visits_db_def ex_race_db_def
  ex_question_at_def ex_question_def question_ids_def delete_questions_def create_batch_def
  bulk_create_def fresh_rows_def int4_def Let_def

theorem reload_retries_once_then_aborts_witness:
  "create_batch_retrying ex_counts [1, 2, 3] [[2], [], [3]] ex_cleared_db =
     (None, (delete_questions [2] ex_cleared_db)\<lparr>question_visits := [(1, 42), (3, 9)]\<rparr>, [[3]]) \<and>
   create_batch_retrying ex_counts [1, 2, 3] [[], [3], [1]] ex_cleared_db =
     (None, ex_cleared_db\<lparr>question_visits := [(1, 42), (2, 27), (3, 9)]\<rparr>, [[3], [1]]) \<and>
   reload_from_analytics ex_counts [[2], [3]] ex_race_db =
     (Some IntegrityError, rolled_back ex_race_db (delete_questions [3] (delete_questions [2] ex_cleared_db))) \<and>
   question_visits (snd (reload_from_analytics ex_counts [[2], [3]] ex_race_db)) = [(1, 5)] \<and>
   map q_id (questions (snd (reload_from_analytics ex_counts [[2], [3]] ex_race_db))) = [1]"
proof -
  let ?dc = "delete_questions [2] ex_cleared_db"
  let ?dd = "delete_questions [3] ?dc"
  have p1: "distinct (question_ids ex_cleared_db)" by (simp add: ex_visits_defs)
  have p2: "set [1, 2, 3] \<subseteq> fst ` set ex_counts" by (simp add: ex_counts_def)
  have p3: "set [1, 2, 3] \<inter> fst ` set (question_visits ex_cleared_db) = {}"
    by (simp add: ex_cleared_db_def)
  have p4: "\<forall>(i, v) \<in> set ex_counts. int4 v" by (simp add: ex_counts_def int4_def)
  have retried: "create_batch_retrying ex_counts [1, 2, 3] [[2], [], [3]] ex_cleared_db =
                   (None, ?dc\<lparr>question_visits := [(1, 42), (3, 9)]\<rparr>, [[3]])"
    using reload_retries_once_then_aborts
            [where d = ex_cleared_db and b = "[1, 2, 3]" and insts = ex_counts
               and ?g1.0 = "[2]" and ?g2.0 = "[]" and env = "[[3]]"]
          p1 p2 p3 p4
    by (simp add: ex_visits_defs)
  have direct: "create_batch_retrying ex_counts [1, 2, 3] [[], [3], [1]] ex_cleared_db =
                  (None, ex_cleared_db\<lparr>question_visits := [(1, 42), (2, 27), (3, 9)]\<rparr>, [[3], [1]])"
    using reload_retries_once_then_aborts
            [where d = ex_cleared_db and b = "[1, 2, 3]" and insts = ex_counts
               and ?g1.0 = "[]" and ?g2.0 = "[3]" and env = "[[1]]"]
          p1 p2 p3 p4
    by (simp add: ex_visits_defs)
  have h1: "distinct (map fst ex_counts)" by (simp add: ex_counts_def)
  have h2: "ex_counts = [] @ ex_counts @ []" by simp
  have h3: "reload_loop (length ex_counts) 1 [] [] [[2], [3]] ex_race_db =
              (None, ex_race_db, [[2], [3]])"
    by simp
  have h4: "chunked (map fst ex_counts) 1000 = [] @ [1, 2, 3] # []"
    by (simp add: chunked.simps ex_counts_def)
  have h5: "create_batches ex_counts [] [[2], [3]]
              (ex_race_db\<lparr>question_visits :=
                 filter (\<lambda>(i, v). i \<notin> set (map fst ex_counts)) (question_visits ex_race_db)\<rparr>) =
              (None, ex_cleared_db, [[2], [3]])"
    by (simp add: ex_counts_def ex_cleared_db_def ex_visits_db_def ex_race_db_def)
  have h6: "create_batch ex_counts [1, 2, 3] [[2], [3]] ex_cleared_db =
              (Some IntegrityError, ?dc, [[3]])"
    by (simp add: ex_visits_defs)
  have h7: "create_batch ex_counts [1, 2, 3] [[3]] ?dc = (Some IntegrityError, ?dd, [])"
    by (simp add: ex_visits_defs)
  have h8: "ex_counts \<noteq> [] \<and> length ex_counts \<le> 30000" by (simp add: ex_counts_def)
  have aborted: "reload_from_analytics ex_counts [[2], [3]] ex_race_db =
                   (Some IntegrityError, rolled_back ex_race_db ?dd)"
    using reload_retries_once_then_aborts
            [where pageviews = ex_counts and ?done = "[]" and batch = ex_counts and rest = "[]"
               and ?env0.0 = "[[2], [3]]" and ?d0.0 = ex_race_db and da = ex_race_db
               and enva = "[[2], [3]]" and ?bs1.0 = "[]" and b' = "[1, 2, 3]" and ?bs2.0 = "[]"
               and db = ex_cleared_db and envb = "[[2], [3]]" and dc = ?dc and envc = "[[3]]"
               and dd = ?dd and envd = "[]"]
          h1 h2 h3 h4 h5 h6 h7 h8
    by simp
  have rb: "question_visits (rolled_back ex_race_db ?dd) = [(1, 5)] \<and>
            map q_id (questions (rolled_back ex_race_db ?dd)) = [1]"
    by (simp add: rolled_back_def ex_visits_defs)
  show ?thesis using retried direct aborted rb by simp
qed

end
